theory Spec2Isabelle
  imports Complex_Main "HOL-Library.Sublist" "HOL-Library.Multiset"
begin

section \<open>JavaScript strings\<close>

text \<open>
  A JavaScript string is a sequence of UTF-16 code units; \<open>includes\<close>, \<open>endsWith\<close>,
  \<open>replace\<close>, \<open>split\<close> and the regular expressions of the dashboard (none carries the
  \<open>u\<close> flag) all work on code units.  A code unit is modelled as its number, a string
  as the list of its code units.  The CJK literals of the source are written by their
  code units: U+842C (ten-thousand), U+767E U+842C (million), U+5104 (hundred-million),
  U+5E74 (year), U+6708 (month).
\<close>

type_synonym jschar = nat
type_synonym jsstring = "jschar list"

definition ascii :: "string \<Rightarrow> jsstring" where
  "ascii s = map of_char s"

definition isWhiteSpace :: "jschar \<Rightarrow> bool" where
  \<comment> \<open>WhiteSpace and LineTerminator of ECMAScript: what \<open>trim\<close> strips and \<open>\\s\<close> matches\<close>
  "isWhiteSpace c \<longleftrightarrow>
     c = 0x09 \<or> c = 0x0A \<or> c = 0x0B \<or> c = 0x0C \<or> c = 0x0D \<or> c = 0x20 \<or> c = 0xA0
     \<or> c = 0x1680 \<or> (0x2000 \<le> c \<and> c \<le> 0x200A) \<or> c = 0x2028 \<or> c = 0x2029
     \<or> c = 0x202F \<or> c = 0x205F \<or> c = 0x3000 \<or> c = 0xFEFF"

definition isDigit :: "jschar \<Rightarrow> bool" where
  \<comment> \<open>\<open>\\d\<close> without the \<open>u\<close> flag: the ASCII digits\<close>
  "isDigit c \<longleftrightarrow> 0x30 \<le> c \<and> c \<le> 0x39"

definition trimStart :: "jsstring \<Rightarrow> jsstring" where
  "trimStart s = dropWhile isWhiteSpace s"

definition trim :: "jsstring \<Rightarrow> jsstring" where
  "trim s = rev (dropWhile isWhiteSpace (rev (dropWhile isWhiteSpace s)))"

fun str_includes :: "jsstring \<Rightarrow> jsstring \<Rightarrow> bool" where
  \<comment> \<open>\<open>s.includes(t)\<close>: \<open>t\<close> occurs in \<open>s\<close> as a contiguous run of code units\<close>
  "str_includes [] t = (t = [])"
| "str_includes (c # s) t = (prefix t (c # s) \<or> str_includes s t)"

definition endsWith :: "jsstring \<Rightarrow> jsstring \<Rightarrow> bool" where
  "endsWith s t \<longleftrightarrow> length t \<le> length s \<and> drop (length s - length t) s = t"

definition truthy :: "jsstring option \<Rightarrow> bool" where
  \<comment> \<open>truthiness of a value that is a string or \<open>undefined\<close>\<close>
  "truthy v = (case v of None \<Rightarrow> False | Some s \<Rightarrow> s \<noteq> [])"

fun coalesce :: "'a option list \<Rightarrow> 'a option" where
  \<comment> \<open>\<open>a ?? b ?? c\<close> over values that are present or \<open>undefined\<close>\<close>
  "coalesce [] = None"
| "coalesce (None # vs) = coalesce vs"
| "coalesce (Some v # vs) = Some v"

fun distinctFirst :: "'a list \<Rightarrow> 'a list" where
  \<comment> \<open>\<open>Array.from(new Set(xs))\<close>: a Set keeps each element at its first insertion\<close>
  "distinctFirst [] = []"
| "distinctFirst (x # xs) = x # distinctFirst (filter (\<lambda>y. y \<noteq> x) xs)"

fun mapSet :: "('k \<times> 'v) list \<Rightarrow> 'k \<Rightarrow> 'v \<Rightarrow> ('k \<times> 'v) list" where
  \<comment> \<open>\<open>Map.prototype.set\<close>: a Map iterates in the order of first insertion, and setting
      a key that is present overwrites its value where it stands\<close>
  "mapSet [] k v = [(k, v)]"
| "mapSet ((k', v') # m) k v = (if k' = k then (k, v) # m else (k', v') # mapSet m k v)"

definition mapGet :: "('k \<times> 'v) list \<Rightarrow> 'k \<Rightarrow> 'v option" where
  "mapGet m k = map_of m k"

definition mapKeys :: "('k \<times> 'v) list \<Rightarrow> 'k list" where
  "mapKeys m = map fst m"

section \<open>Numbers\<close>

text \<open>
  A JavaScript number is an IEEE 754 double: \<open>NaN\<close>, one of the two infinities, or a
  finite double, which is a real \<open>m * 2^e\<close> with \<open>|m| < 2^53\<close> and \<open>-1074 \<le> e \<le> 971\<close>.
  A finite double is modelled as the real it denotes.  Every arithmetic operation of the
  language yields the double nearest to the exact result, the one with the even
  significand of two that are equally near, and an infinity from \<open>2^1024 - 2^970\<close> on.
  The sign of a zero is not modelled: the two zeros are equal as numbers, and the sign
  shows only when a number is divided by a zero.
\<close>

datatype jsnum = Fin real | NaN | PosInf | NegInf

datatype jsval = Undefined | Null | Str jsstring | Num jsnum

definition isDouble :: "real \<Rightarrow> bool" where
  \<comment> \<open>the reals that are finite doubles\<close>
  "isDouble x \<longleftrightarrow>
     (\<exists>m e. \<bar>m\<bar> < 2 ^ 53 \<and> - 1074 \<le> e \<and> e \<le> 971 \<and> x = of_int m * 2 powi e)"

definition overflowThreshold :: real where
  \<comment> \<open>\<open>2^1024 - 2^970\<close>, half way between the largest double and \<open>2^1024\<close>\<close>
  "overflowThreshold = (2 ^ 54 - 1) * 2 ^ 970"

definition roundHalfEven :: "real \<Rightarrow> int" where
  \<comment> \<open>the nearest integer, the even one of two that are equally near\<close>
  "roundHalfEven y =
     (let f = \<lfloor>y\<rfloor>; d = y - of_int f
      in if d < 1 / 2 then f else if 1 / 2 < d then f + 1 else if even f then f else f + 1)"

definition ulpExponent :: "real \<Rightarrow> int" where
  \<comment> \<open>the exponent of the spacing of the doubles around \<open>x\<close>: 53 significant bits, and
      the spacing \<open>2^-1074\<close> of the subnormal doubles at the least\<close>
  "ulpExponent x = max (\<lfloor>log 2 \<bar>x\<bar>\<rfloor> - 52) (- 1074)"

definition roundFinite :: "real \<Rightarrow> real" where
  \<comment> \<open>the double nearest to a real below the overflow threshold\<close>
  "roundFinite x = of_int (roundHalfEven (x / 2 powi ulpExponent x)) * 2 powi ulpExponent x"

definition toDouble :: "real \<Rightarrow> jsnum" where
  \<comment> \<open>the Number value for a real: round to nearest, ties to even, with overflow\<close>
  "toDouble x =
     (if overflowThreshold \<le> \<bar>x\<bar> then (if 0 < x then PosInf else NegInf)
      else Fin (roundFinite x))"

definition negate :: "jsnum \<Rightarrow> jsnum" where
  "negate n = (case n of Fin x \<Rightarrow> Fin (- x) | NaN \<Rightarrow> NaN | PosInf \<Rightarrow> NegInf | NegInf \<Rightarrow> PosInf)"

fun fadd :: "jsnum \<Rightarrow> jsnum \<Rightarrow> jsnum" where
  \<comment> \<open>\<open>a + b\<close> on numbers\<close>
  "fadd (Fin x) (Fin y) = toDouble (x + y)"
| "fadd NaN _ = NaN"
| "fadd _ NaN = NaN"
| "fadd PosInf NegInf = NaN"
| "fadd NegInf PosInf = NaN"
| "fadd PosInf _ = PosInf"
| "fadd _ PosInf = PosInf"
| "fadd NegInf _ = NegInf"
| "fadd _ NegInf = NegInf"

definition fsub :: "jsnum \<Rightarrow> jsnum \<Rightarrow> jsnum" where
  \<comment> \<open>\<open>a - b\<close>\<close>
  "fsub a b = fadd a (negate b)"

fun fmul :: "jsnum \<Rightarrow> jsnum \<Rightarrow> jsnum" where
  \<comment> \<open>\<open>a * b\<close>\<close>
  "fmul (Fin x) (Fin y) = toDouble (x * y)"
| "fmul NaN _ = NaN"
| "fmul _ NaN = NaN"
| "fmul (Fin x) PosInf = (if x = 0 then NaN else if 0 < x then PosInf else NegInf)"
| "fmul (Fin x) NegInf = (if x = 0 then NaN else if 0 < x then NegInf else PosInf)"
| "fmul PosInf (Fin y) = (if y = 0 then NaN else if 0 < y then PosInf else NegInf)"
| "fmul NegInf (Fin y) = (if y = 0 then NaN else if 0 < y then NegInf else PosInf)"
| "fmul PosInf PosInf = PosInf"
| "fmul NegInf NegInf = PosInf"
| "fmul PosInf NegInf = NegInf"
| "fmul NegInf PosInf = NegInf"

fun fdiv :: "jsnum \<Rightarrow> jsnum \<Rightarrow> jsnum" where
  \<comment> \<open>\<open>a / b\<close>; a zero divisor is taken as the positive zero\<close>
  "fdiv (Fin x) (Fin y) =
     (if y = 0 then (if x = 0 then NaN else if 0 < x then PosInf else NegInf)
      else toDouble (x / y))"
| "fdiv NaN _ = NaN"
| "fdiv _ NaN = NaN"
| "fdiv (Fin x) PosInf = Fin 0"
| "fdiv (Fin x) NegInf = Fin 0"
| "fdiv PosInf (Fin y) = (if 0 \<le> y then PosInf else NegInf)"
| "fdiv NegInf (Fin y) = (if 0 \<le> y then NegInf else PosInf)"
| "fdiv PosInf PosInf = NaN"
| "fdiv PosInf NegInf = NaN"
| "fdiv NegInf PosInf = NaN"
| "fdiv NegInf NegInf = NaN"

fun flt :: "jsnum \<Rightarrow> jsnum \<Rightarrow> bool" where
  \<comment> \<open>\<open>a < b\<close>: false when either side is \<open>NaN\<close>\<close>
  "flt (Fin x) (Fin y) = (x < y)"
| "flt NaN _ = False"
| "flt _ NaN = False"
| "flt PosInf _ = False"
| "flt _ NegInf = False"
| "flt _ PosInf = True"
| "flt NegInf _ = True"

definition fmin :: "jsnum \<Rightarrow> jsnum \<Rightarrow> jsnum" where
  \<comment> \<open>\<open>Math.min(a, b)\<close>: \<open>NaN\<close> when either is \<open>NaN\<close>\<close>
  "fmin a b = (if a = NaN \<or> b = NaN then NaN else if flt b a then b else a)"

definition fmax :: "jsnum \<Rightarrow> jsnum \<Rightarrow> jsnum" where
  \<comment> \<open>\<open>Math.max(a, b)\<close>\<close>
  "fmax a b = (if a = NaN \<or> b = NaN then NaN else if flt a b then b else a)"

definition ffloor :: "jsnum \<Rightarrow> jsnum" where
  \<comment> \<open>\<open>Math.floor\<close>: the floor of a double is a double\<close>
  "ffloor n = (case n of Fin x \<Rightarrow> Fin (of_int \<lfloor>x\<rfloor>) | _ \<Rightarrow> n)"

definition fceil :: "jsnum \<Rightarrow> jsnum" where
  \<comment> \<open>\<open>Math.ceil\<close>\<close>
  "fceil n = (case n of Fin x \<Rightarrow> Fin (of_int \<lceil>x\<rceil>) | _ \<Rightarrow> n)"

definition isFiniteNum :: "jsnum \<Rightarrow> bool" where
  \<comment> \<open>\<open>Number.isFinite\<close> of a number\<close>
  "isFiniteNum n = (case n of Fin x \<Rightarrow> True | _ \<Rightarrow> False)"

definition finiteOr0 :: "jsnum \<Rightarrow> real" where
  \<comment> \<open>\<open>Number.isFinite(n) ? n : 0\<close>\<close>
  "finiteOr0 n = (case n of Fin x \<Rightarrow> x | _ \<Rightarrow> 0)"

definition toFixed :: "nat \<Rightarrow> real \<Rightarrow> real" where
  \<comment> \<open>the decimal that \<open>x.toFixed(d)\<close> prints for a finite \<open>x\<close>: the multiple of \<open>10^-d\<close>
      nearest to \<open>x\<close>, the larger in magnitude of two equally near; from \<open>10^21\<close> on
      \<open>toFixed\<close> prints \<open>x\<close> itself\<close>
  "toFixed d x =
     (if 10 ^ 21 \<le> \<bar>x\<bar> then x
      else if x < 0 then - (of_int \<lfloor>(- x) * 10 ^ d + 1 / 2\<rfloor> / 10 ^ d)
      else of_int \<lfloor>x * 10 ^ d + 1 / 2\<rfloor> / 10 ^ d)"

definition fixedNum :: "nat \<Rightarrow> jsnum \<Rightarrow> jsnum" where
  \<comment> \<open>\<open>+(n.toFixed(d))\<close>: the printed decimal read back as a number; \<open>NaN\<close> and the
      infinities print as their names and read back as themselves\<close>
  "fixedNum d n = (case n of Fin x \<Rightarrow> toDouble (toFixed d x) | _ \<Rightarrow> n)"

subsection \<open>Reading a number from a string\<close>


definition digitVal :: "jschar \<Rightarrow> nat" where
  "digitVal c = c - 0x30"

definition decimalVal :: "jsstring \<Rightarrow> nat" where
  \<comment> \<open>the value of a run of decimal digits\<close>
  "decimalVal ds = foldl (\<lambda>a c. 10 * a + digitVal c) 0 ds"

definition hexDigitVal :: "jschar \<Rightarrow> nat option" where
  "hexDigitVal c =
     (if 0x30 \<le> c \<and> c \<le> 0x39 then Some (c - 0x30)
      else if 0x41 \<le> c \<and> c \<le> 0x46 then Some (c - 0x41 + 10)
      else if 0x61 \<le> c \<and> c \<le> 0x66 then Some (c - 0x61 + 10)
      else None)"

definition radixVal :: "nat \<Rightarrow> jsstring \<Rightarrow> nat option" where
  \<comment> \<open>the value of a non-empty run of digits of the radix, \<open>None\<close> for anything else\<close>
  "radixVal b ds =
     (if ds = [] \<or> (\<exists>c \<in> set ds. case hexDigitVal c of None \<Rightarrow> True | Some v \<Rightarrow> b \<le> v)
      then None
      else Some (foldl (\<lambda>a c. b * a + the (hexDigitVal c)) 0 ds))"

definition scanExponent :: "jsstring \<Rightarrow> (bool \<times> nat) \<times> jsstring" where
  \<comment> \<open>an optional ExponentPart at the head of the string: (negative, digits) and the
      rest; without digits after \<open>e\<close> nothing is consumed\<close>
  "scanExponent s =
     (case s of
        [] \<Rightarrow> ((False, 0), s)
      | c # r \<Rightarrow>
          if c = 0x65 \<or> c = 0x45 then
            (let (neg, r') =
                   (case r of
                      [] \<Rightarrow> (False, r)
                    | x # r2 \<Rightarrow> if x = 0x2D then (True, r2) else if x = 0x2B then (False, r2)
                                else (False, r))
             in if takeWhile isDigit r' = [] then ((False, 0), s)
                else ((neg, decimalVal (takeWhile isDigit r')), dropWhile isDigit r'))
          else ((False, 0), s))"

definition scanUnsigned :: "jsstring \<Rightarrow> (jsnum \<times> jsstring) option" where
  \<comment> \<open>the longest prefix that is a StrUnsignedDecimalLiteral, its mathematical value
      (not yet rounded to a double), and the rest\<close>
  "scanUnsigned s =
     (if prefix (ascii ''Infinity'') s then Some (PosInf, drop 8 s)
      else
        (let ip = takeWhile isDigit s;
             r1 = dropWhile isDigit s;
             dot = (case r1 of [] \<Rightarrow> False | c # _ \<Rightarrow> c = 0x2E);
             fp = (if dot then takeWhile isDigit (tl r1) else []);
             r2 = (if dot then dropWhile isDigit (tl r1) else r1)
         in if ip = [] \<and> fp = [] then None
            else
              (let ((neg, e), r3) = scanExponent r2;
                   m = real (decimalVal ip) + real (decimalVal fp) / 10 ^ length fp
               in Some (Fin (if neg then m / 10 ^ e else m * 10 ^ e), r3))))"

definition scanDecimal :: "jsstring \<Rightarrow> (jsnum \<times> jsstring) option" where
  \<comment> \<open>the longest prefix that is a StrDecimalLiteral (an optional sign first)\<close>
  "scanDecimal s =
     (case s of
        [] \<Rightarrow> None
      | c # r \<Rightarrow>
          if c = 0x2B then scanUnsigned r
          else if c = 0x2D then map_option (\<lambda>(v, rest). (negate v, rest)) (scanUnsigned r)
          else scanUnsigned s)"

definition nonDecimal :: "jsstring \<Rightarrow> nat option" where
  \<comment> \<open>a NonDecimalIntegerLiteral: \<open>0x\<close>, \<open>0o\<close> or \<open>0b\<close> and digits of that radix\<close>
  "nonDecimal s =
     (case s of
        z # x # ds \<Rightarrow>
          if z \<noteq> 0x30 then None
          else if x = 0x78 \<or> x = 0x58 then radixVal 16 ds
          else if x = 0x6F \<or> x = 0x4F then radixVal 8 ds
          else if x = 0x62 \<or> x = 0x42 then radixVal 2 ds
          else None
      | _ \<Rightarrow> None)"

definition roundNum :: "jsnum \<Rightarrow> jsnum" where
  \<comment> \<open>the Number value for the mathematical value of a literal.  The engines round
      the exact value; for a literal of more than 20 significant digits the language
      leaves them the choice between the two neighbours of that value\<close>
  "roundNum v = (case v of Fin x \<Rightarrow> toDouble x | _ \<Rightarrow> v)"

definition stringToNumber :: "jsstring \<Rightarrow> jsnum" where
  \<comment> \<open>\<open>Number(s)\<close> for a string: the whole trimmed string is a numeric literal, or \<open>NaN\<close>\<close>
  "stringToNumber str =
     (let s = trim str in
      if s = [] then Fin 0
      else
        (case nonDecimal s of
           Some v \<Rightarrow> toDouble (real v)
         | None \<Rightarrow>
             (case scanDecimal s of
                None \<Rightarrow> NaN
              | Some (v, rest) \<Rightarrow> if rest = [] then roundNum v else NaN)))"

definition parseFloat :: "jsstring \<Rightarrow> jsnum" where
  \<comment> \<open>\<open>parseFloat(s)\<close>: the longest decimal literal at the head of the string, leading
      white space skipped, or \<open>NaN\<close>\<close>
  "parseFloat str =
     (case scanDecimal (trimStart str) of None \<Rightarrow> NaN | Some (v, rest) \<Rightarrow> roundNum v)"





section \<open>Field coercion\<close>

definition num :: "jsval \<Rightarrow> real" where
  \<comment> \<open>\<open>num\<close>, the coercion of the ingestion paths.  For a number \<open>String(v)\<close> is its
      round-trip decimal, free of commas, white space and percent signs, so
      \<open>Number(String(v))\<close> is \<open>v\<close> again\<close>
  "num v =
     (case v of
        Undefined \<Rightarrow> 0
      | Null \<Rightarrow> 0
      | Str s \<Rightarrow>
          if s = [] then 0
          else finiteOr0 (stringToNumber
                 (filter (\<lambda>c. \<not> (c = 0x2C \<or> isWhiteSpace c \<or> c = 0x25)) s))
      | Num n \<Rightarrow> finiteOr0 n)"

definition unitMultiplier :: "jsstring \<Rightarrow> real" where
  \<comment> \<open>\<open>mult\<close>: \<open>1e8\<close> when the string includes U+5104, else \<open>1e6\<close> when it includes
      U+767E U+842C, else \<open>1e4\<close> when it includes U+842C, else 1\<close>
  "unitMultiplier s =
     (if str_includes s [0x5104] then 10 ^ 8
      else if str_includes s [0x767E, 0x842C] then 10 ^ 6
      else if str_includes s [0x842C] then 10 ^ 4
      else 1)"

definition coerceNumber :: "jsval \<Rightarrow> jsnum" where
  \<comment> \<open>\<open>coerceNumber\<close>, the coercion of the sortable-value accessor\<close>
  "coerceNumber v =
     (case v of
        Num n \<Rightarrow> n
      | Undefined \<Rightarrow> Fin 0
      | Null \<Rightarrow> Fin 0
      | Str v' \<Rightarrow>
          (let s = trim (filter (\<lambda>c. c \<noteq> 0x2C) v') in
           if endsWith s [0x25] then fdiv (parseFloat (remove1 0x25 s)) (Fin 100)
           else
             (let mult = unitMultiplier s;
                  s' = filter (\<lambda>c. isDigit c \<or> c = 0x2E \<or> c = 0x2D) s
              in case parseFloat s' of Fin n \<Rightarrow> fmul (Fin n) (Fin mult) | _ \<Rightarrow> Fin 0)))"

section \<open>Month normalizer\<close>

fun natStr :: "nat \<Rightarrow> jsstring" where
  \<comment> \<open>\<open>String(n)\<close> for a natural number: its decimal digits\<close>
  "natStr n = (if n < 10 then [0x30 + n] else natStr (n div 10) @ [0x30 + n mod 10])"

declare natStr.simps [simp del]

definition padStart2 :: "jsstring \<Rightarrow> jsstring" where
  \<comment> \<open>\<open>s.padStart(2, "0")\<close>\<close>
  "padStart2 s = replicate (2 - length s) 0x30 @ s"

definition isMonthSep :: "jschar \<Rightarrow> bool" where
  \<comment> \<open>the class \<open>[\\-/\\.\<close>U+5E74\<open>]\<close>\<close>
  "isMonthSep c \<longleftrightarrow> c = 0x2D \<or> c = 0x2F \<or> c = 0x2E \<or> c = 0x5E74"

definition matchYearMonthAt :: "jsstring \<Rightarrow> (jsstring \<times> jsstring) option" where
  \<comment> \<open>\<open>(20\\d{2})[\\-/\\.\<close>U+5E74\<open>]?(\\d{1,2})\<close> matched at the head of the string: the two
      groups.  The separator is taken only when a digit follows it; the month group is
      greedy\<close>
  "matchYearMonthAt s =
     (case s of
        c1 # c2 # d1 # d2 # r \<Rightarrow>
          if c1 = 0x32 \<and> c2 = 0x30 \<and> isDigit d1 \<and> isDigit d2 then
            (let r' = (case r of
                         x # y # _ \<Rightarrow> if isMonthSep x \<and> isDigit y then tl r else r
                       | _ \<Rightarrow> r)
             in case r' of
                  [] \<Rightarrow> None
                | m1 # rest \<Rightarrow>
                    if isDigit m1 then
                      Some ([c1, c2, d1, d2],
                            (case rest of
                               [] \<Rightarrow> [m1]
                             | m2 # _ \<Rightarrow> if isDigit m2 then [m1, m2] else [m1]))
                    else None)
          else None
      | _ \<Rightarrow> None)"

fun matchYearMonth :: "jsstring \<Rightarrow> (jsstring \<times> jsstring) option" where
  \<comment> \<open>\<open>t.match(...)\<close>: the leftmost match\<close>
  "matchYearMonth [] = None"
| "matchYearMonth (c # s) =
     (case matchYearMonthAt (c # s) of Some g \<Rightarrow> Some g | None \<Rightarrow> matchYearMonth s)"

definition startsWithMonthGlyph :: "jsstring \<Rightarrow> bool" where
  "startsWithMonthGlyph s = (case s of [] \<Rightarrow> False | c # _ \<Rightarrow> c = 0x6708)"

definition matchMonthAt :: "jsstring \<Rightarrow> jsstring option" where
  \<comment> \<open>\<open>(\\d{1,2})\\s*\<close>U+6708 matched at the head of the string: the group\<close>
  "matchMonthAt s =
     (case s of
        [] \<Rightarrow> None
      | d1 # r \<Rightarrow>
          if isDigit d1 then
            (case r of
               [] \<Rightarrow> None
             | d2 # r2 \<Rightarrow>
                 if isDigit d2 then
                   (if startsWithMonthGlyph (dropWhile isWhiteSpace r2) then Some [d1, d2]
                    else None)
                 else if startsWithMonthGlyph (dropWhile isWhiteSpace r) then Some [d1]
                 else None)
          else None)"

fun matchMonth :: "jsstring \<Rightarrow> jsstring option" where
  "matchMonth [] = None"
| "matchMonth (c # s) =
     (case matchMonthAt (c # s) of Some g \<Rightarrow> Some g | None \<Rightarrow> matchMonth s)"

definition normalizeMonth :: "nat \<Rightarrow> jsstring option \<Rightarrow> jsstring option" where
  \<comment> \<open>\<open>normalizeMonth\<close>; the first argument is \<open>new Date().getFullYear()\<close>\<close>
  "normalizeMonth year s =
     (case s of
        None \<Rightarrow> None
      | Some s' \<Rightarrow>
          if s' = [] then None
          else
            (let t = trim s' in
             case matchYearMonth t of
               Some (y, m) \<Rightarrow> Some (y @ [0x2D] @ padStart2 (natStr (decimalVal m)))
             | None \<Rightarrow>
                 (case matchMonth t of
                    Some m \<Rightarrow> Some (natStr year @ [0x2D] @ padStart2 (natStr (decimalVal m)))
                  | None \<Rightarrow> None)))"

section \<open>Rows and the record ingestor\<close>

text \<open>
  A Row of the source, its fields by their meaning: \<open>month\<close> is U+6708 U+4EFD,
  \<open>agent\<close> U+4EE3 U+7406 U+5546, \<open>merchant\<close> U+5546 U+6236, \<open>openAmount\<close>
  U+958B U+5206 U+91CF, \<open>revenue\<close> U+71DF U+696D U+984D, \<open>ratio\<close> U+6BD4 U+7387; the
  four pass-through fields follow.  The three numbers of a Row are finite doubles.
\<close>

record row =
  month :: "jsstring option"
  agent :: jsstring
  merchant :: jsstring
  openAmount :: real
  revenue :: real
  ratio :: real
  machine :: "jsstring option"
  remark :: "jsstring option"
  low25 :: "jsstring option"
  hours :: "jsstring option"

text \<open>
  A raw record is what the header-row parsers (Papa Parse with \<open>header: true\<close>, SheetJS
  with \<open>raw: false\<close>) hand over: a mapping from column names to cell texts, where a
  missing column reads as \<open>undefined\<close>.
\<close>

type_synonym rawRecord = "jsstring \<Rightarrow> jsstring option"

definition cell :: "jsstring option \<Rightarrow> jsval" where
  "cell v = (case v of None \<Rightarrow> Undefined | Some s \<Rightarrow> Str s)"

definition kAgent :: jsstring where "kAgent = [0x4EE3, 0x7406, 0x5546]"
definition kAgentShort :: jsstring where "kAgentShort = [0x4EE3, 0x7406]"
definition kMerchant :: jsstring where "kMerchant = [0x5546, 0x6236]"
definition kOpen :: jsstring where "kOpen = [0x958B, 0x5206, 0x91CF]"
definition kOpenShort :: jsstring where "kOpenShort = [0x958B, 0x5206]"
definition kRevenue :: jsstring where "kRevenue = [0x71DF, 0x696D, 0x984D]"
definition kRatio :: jsstring where "kRatio = kRevenue @ [0x2F] @ kOpen"
definition kRatioPercent :: jsstring where "kRatioPercent = kRatio @ [0x767E, 0x5206, 0x6BD4]"
definition kMachine :: jsstring where "kMachine = [0x6A5F, 0x53F0, 0x6578, 0x91CF]"
definition kMachineShort :: jsstring where "kMachineShort = [0x6A5F, 0x53F0]"
definition kRemark :: jsstring where "kRemark = [0x5099, 0x8A3B]"
definition kLow25 :: jsstring where "kLow25 = kOpen @ [0x4F4E, 0x65BC] @ ascii ''25%''"
definition kLow25Short :: jsstring where "kLow25Short = [0x4F4E, 0x65BC] @ ascii ''25%''"
definition kHours :: jsstring where "kHours = [0x71DF, 0x696D, 0x6642, 0x9593]"
definition kMonth :: jsstring where "kMonth = [0x6708, 0x4EFD]"
definition kMonthShort :: jsstring where "kMonthShort = [0x6708]"
definition kDate :: jsstring where "kDate = [0x65E5, 0x671F]"
definition unspecified :: jsstring where "unspecified = [0x672A, 0x6307, 0x5B9A]"

definition ratioSource :: "rawRecord \<Rightarrow> jsstring option" where
  \<comment> \<open>the explicit ratio of a record: the first of the four ratio columns that is present\<close>
  "ratioSource r =
     coalesce [r kRatio, r kRatioPercent, r (ascii ''Revenue/Open''), r (ascii ''ROI'')]"

definition toRow :: "nat \<Rightarrow> rawRecord \<Rightarrow> jsstring \<Rightarrow> row" where
  \<comment> \<open>\<open>toRow\<close>, the same at module level and inside \<open>parseOne\<close>.  The two quotients
      are divisions of doubles.  A Row of the model holds finite numbers: the quotient of
      the revenue by an open amount below 1 that reaches the overflow threshold, which
      is \<open>Infinity\<close> in the program, is outside the model\<close>
  "toRow year r batchMonth =
     (let agent' = trim (case coalesce [r kAgent, r kAgentShort, r (ascii ''Agent'')] of
                           None \<Rightarrow> [] | Some s \<Rightarrow> s);
          store = trim (case coalesce [r kMerchant, r (ascii ''Store'')] of
                          None \<Rightarrow> [] | Some s \<Rightarrow> s);
          open' = num (cell (coalesce [r kOpen, r kOpenShort, r (ascii ''Open'')]));
          rev = num (cell (coalesce [r kRevenue, r (ascii ''Revenue''), r (ascii ''Sales'')]));
          raw = (case ratioSource r of None \<Rightarrow> [] | Some s \<Rightarrow> s);
          ratio' = (if raw = [] then (if open' > 0 then roundFinite (rev / open') else 0)
                    else if str_includes raw [0x25] then roundFinite (num (Str raw) / 100)
                    else num (Str raw));
          m = normalizeMonth year
                (coalesce [r kMonth, r kMonthShort, r (ascii ''Month''), r kDate,
                           r (ascii ''Date''), Some batchMonth])
      in \<lparr> month = m, agent = agent', merchant = store, openAmount = open', revenue = rev,
           ratio = ratio',
           machine = coalesce [r kMachine, r kMachineShort, r (ascii ''Machines'')],
           remark = coalesce [r kRemark, r (ascii ''Remark''), r (ascii ''Note'')],
           low25 = coalesce [r kLow25, r kLow25Short],
           hours = coalesce [r kHours, r (ascii ''Hours'')] \<rparr>)"

definition hasIdentity :: "row \<Rightarrow> bool" where
  \<comment> \<open>the filter \<open>x => x.agent && x.merchant\<close> of every ingestion path\<close>
  "hasIdentity x \<longleftrightarrow> agent x \<noteq> [] \<and> merchant x \<noteq> []"

definition identified :: "row \<Rightarrow> bool" where
  \<comment> \<open>agent and merchant are not empty, and trimming leaves them as they are\<close>
  "identified r \<longleftrightarrow>
     agent r \<noteq> [] \<and> merchant r \<noteq> []
     \<and> trim (agent r) = agent r \<and> trim (merchant r) = merchant r"

definition parseOne :: "nat \<Rightarrow> jsstring \<Rightarrow> rawRecord list \<Rightarrow> row list" where
  \<comment> \<open>\<open>parseOne\<close>, on the records the CSV or the spreadsheet reader found in the file\<close>
  "parseOne year batchMonth records = filter hasIdentity (map (\<lambda>r. toRow year r batchMonth) records)"

definition loadFromCsvUrl :: "nat \<Rightarrow> rawRecord list \<Rightarrow> jsstring \<Rightarrow> row list" where
  "loadFromCsvUrl year records batchMonth =
     filter hasIdentity (map (\<lambda>r. toRow year r batchMonth) records)"

definition loadFromJsonUrl :: "nat \<Rightarrow> rawRecord list option \<Rightarrow> jsstring \<Rightarrow> row list" where
  \<comment> \<open>\<open>None\<close> is a response that is not an array\<close>
  "loadFromJsonUrl year arr batchMonth =
     filter hasIdentity
       (map (\<lambda>r. toRow year r batchMonth) (case arr of None \<Rightarrow> [] | Some rs \<Rightarrow> rs))"

definition seed :: "row list" where
  \<comment> \<open>the five built-in rows; each ratio is written as a quotient of two doubles\<close>
  "seed =
     [\<lparr> month = Some (ascii ''2025-07''), agent = [0x91D1, 0x5091, 0x514B],
        merchant = [0x842C, 0x8C6A], openAmount = 1200000, revenue = 300000,
        ratio = roundFinite (300000 / 1200000), machine = None, remark = None, low25 = None, hours = None \<rparr>,
      \<lparr> month = Some (ascii ''2025-07''), agent = [0x91D1, 0x5091, 0x514B],
        merchant = [0x65B0, 0x5409, 0x661F], openAmount = 900000, revenue = 210000,
        ratio = roundFinite (210000 / 900000), machine = None, remark = None, low25 = None, hours = None \<rparr>,
      \<lparr> month = Some (ascii ''2025-08''), agent = [0x963F, 0x5CF0],
        merchant = [0x5343, 0x5F08], openAmount = 500000, revenue = 150000,
        ratio = roundFinite (150000 / 500000), machine = None, remark = None, low25 = None, hours = None \<rparr>,
      \<lparr> month = Some (ascii ''2025-08''), agent = [0x963F, 0x5CF0],
        merchant = [0x5E03, 0x62C9, 0x5FB7], openAmount = 380000, revenue = 98000,
        ratio = roundFinite (98000 / 380000), machine = None, remark = None, low25 = None, hours = None \<rparr>,
      \<lparr> month = Some (ascii ''2025-08''), agent = [0x570B, 0x6B63],
        merchant = [0x7687, 0x5BA4], openAmount = 350000, revenue = 70000,
        ratio = roundFinite (70000 / 350000), machine = None, remark = None, low25 = None, hours = None \<rparr>]"

text \<open>The two raw records of the example scenario of the specification.\<close>

definition scenarioRecord1 :: rawRecord where
  "scenarioRecord1 =
     map_of [(kAgent, ascii ''X''), (kMerchant, ascii ''M1''),
             (kOpen, ascii ''1,200,000''), (kRevenue, ascii ''300000'')]"

definition scenarioRecord2 :: rawRecord where
  "scenarioRecord2 =
     map_of [(kAgent, ascii ''X''), (kMerchant, ascii ''M2''),
             (kOpen, ascii ''900000''), (kRevenue, ascii ''210000'')]"



section \<open>Batch merger\<close>

text \<open>
  The part of the component state that the merger reads and writes.  A file stands for
  its name and the raw records its reader finds in it.
\<close>

record appState =
  rows :: "row list"
  batchMonth :: jsstring
  appendMode :: bool
  monthA :: "jsstring option"
  monthB :: "jsstring option"

record upload =
  fileName :: jsstring
  fileRecords :: "rawRecord list"

definition scenarioUpload :: upload where
  \<comment> \<open>a file that holds the two records of the example scenario\<close>
  "scenarioUpload =
     \<lparr> fileName = ascii ''2025-07.csv'', fileRecords = [scenarioRecord1, scenarioRecord2] \<rparr>"

definition fillMonth :: "nat \<Rightarrow> jsstring \<Rightarrow> row \<Rightarrow> row" where
  \<comment> \<open>\<open>month: r.month ?? normalizeMonth(batchMonth) ?? unspecified\<close>\<close>
  "fillMonth year bm r =
     r\<lparr> month := Some (case month r of
                        Some m \<Rightarrow> m
                      | None \<Rightarrow> (case normalizeMonth year (Some bm) of
                                   Some m \<Rightarrow> m
                                 | None \<Rightarrow> unspecified)) \<rparr>"

definition mergeRows :: "bool \<Rightarrow> row list \<Rightarrow> row list \<Rightarrow> row list" where
  \<comment> \<open>\<open>if (appendMode) setRows(prev => [...prev, ...merged]); else setRows(merged)\<close>\<close>
  "mergeRows appending prev merged = (if appending then prev @ merged else merged)"

definition nameMonth :: "nat \<Rightarrow> upload list \<Rightarrow> jsstring \<Rightarrow> jsstring" where
  \<comment> \<open>the batch month after the loop over the files: while the field is empty, the
      first month read from a file name is kept\<close>
  "nameMonth year files bm =
     (if bm = [] then
        fold (\<lambda>f v. case normalizeMonth year (Some (fileName f)) of
                       None \<Rightarrow> v
                     | Some fromName \<Rightarrow> if v \<noteq> [] then v else fromName)
             files bm
      else bm)"

definition onFiles :: "nat \<Rightarrow> appState \<Rightarrow> upload list \<Rightarrow> appState" where
  \<comment> \<open>\<open>onFiles\<close>: nothing happens without a file\<close>
  "onFiles year st files =
     (if files = [] then st
      else
        (let bm = batchMonth st;
             batches = map (\<lambda>f. parseOne year bm (fileRecords f)) files;
             merged = map (fillMonth year bm) (concat batches);
             months = filter truthy (distinctFirst (map month merged))
         in st\<lparr> rows := mergeRows (appendMode st) (rows st) merged,
                batchMonth := nameMonth year files bm,
                monthA := (case months of [] \<Rightarrow> monthA st | m0 # _ \<Rightarrow> m0),
                monthB := (case months of
                             [] \<Rightarrow> monthB st
                           | [m0] \<Rightarrow> m0
                           | m0 # m1 # _ \<Rightarrow> m1) \<rparr>))"

definition monthSet :: "row list \<Rightarrow> jsstring option list" where
  "monthSet rs = filter truthy (distinctFirst (map month rs))"

definition initialState :: appState where
  \<comment> \<open>the state the component mounts with\<close>
  "initialState =
     \<lparr> rows = seed, batchMonth = [], appendMode = True,
       monthA = (case monthSet seed of [] \<Rightarrow> None | m0 # _ \<Rightarrow> m0),
       monthB = (case monthSet seed of [] \<Rightarrow> None | [m0] \<Rightarrow> m0 | m0 # m1 # _ \<Rightarrow> m1) \<rparr>"

definition onLoaded :: "appState \<Rightarrow> row list \<Rightarrow> appState" where
  \<comment> \<open>the mount effect: \<open>if (loaded.length) setRows(loaded)\<close>\<close>
  "onLoaded st loaded = (if loaded = [] then st else st\<lparr> rows := loaded \<rparr>)"

definition clearData :: "appState \<Rightarrow> appState" where
  \<comment> \<open>the clear button\<close>
  "clearData st = st\<lparr> rows := [], monthA := None, monthB := None \<rparr>"

inductive reachable :: "nat \<Rightarrow> appState \<Rightarrow> bool" for year :: nat where
  \<comment> \<open>the states of the component: every way the source writes a field of the state\<close>
  mount: "reachable year initialState"
| upload: "reachable year st \<Longrightarrow> reachable year (onFiles year st files)"
| csvUrl: "reachable year st \<Longrightarrow> reachable year (onLoaded st (loadFromCsvUrl year records []))"
| jsonUrl: "reachable year st \<Longrightarrow> reachable year (onLoaded st (loadFromJsonUrl year arr []))"
| clear: "reachable year st \<Longrightarrow> reachable year (clearData st)"
| setBatchMonth: "reachable year st \<Longrightarrow> reachable year (st\<lparr> batchMonth := v \<rparr>)"
| setAppendMode: "reachable year st \<Longrightarrow> reachable year (st\<lparr> appendMode := b \<rparr>)"
| setMonthA: "reachable year st \<Longrightarrow> reachable year (st\<lparr> monthA := a \<rparr>)"
| setMonthB: "reachable year st \<Longrightarrow> reachable year (st\<lparr> monthB := a \<rparr>)"

section \<open>Exclusion filter\<close>

definition isSeparator :: "jschar \<Rightarrow> bool" where
  \<comment> \<open>the class \<open>[,\\s]\<close>\<close>
  "isSeparator c \<longleftrightarrow> c = 0x2C \<or> isWhiteSpace c"

function splitSeparators :: "jsstring \<Rightarrow> jsstring \<Rightarrow> jsstring list" where
  \<comment> \<open>\<open>s.split(/[,\\s]+/)\<close>, the piece in progress (reversed) first: a run of separators
      ends a piece, and the last piece ends with the string\<close>
  "splitSeparators acc [] = [rev acc]"
| "splitSeparators acc (c # s) =
     (if isSeparator c then rev acc # splitSeparators [] (dropWhile isSeparator s)
      else splitSeparators (c # acc) s)"
  by pat_completeness auto
termination
  by (relation "measure (\<lambda>(acc, s). length s)")
     (auto simp: le_imp_less_Suc length_dropWhile_le)

definition excludeTokens :: "jsstring \<Rightarrow> jsstring list" where
  \<comment> \<open>\<open>excludeAgent.split(/[,\\s]+/).map(s => s.trim()).filter(Boolean)\<close>\<close>
  "excludeTokens excludeAgent =
     filter (\<lambda>s. s \<noteq> []) (map trim (splitSeparators [] excludeAgent))"

definition passExclude :: "jsstring list \<Rightarrow> row \<Rightarrow> bool" where
  \<comment> \<open>\<open>passExclude\<close>: the row is kept\<close>
  "passExclude tokens r \<longleftrightarrow>
     length tokens = 0 \<or> \<not> list_ex (\<lambda>tok. str_includes (agent r) tok) tokens"

definition excludeStage :: "jsstring list \<Rightarrow> row list \<Rightarrow> row list" where
  \<comment> \<open>the exclusion step of \<open>filtered\<close>:
      \<open>if (excludeTokens.length) d = d.filter(passExclude)\<close>\<close>
  "excludeStage tokens d = (if length tokens \<noteq> 0 then filter (passExclude tokens) d else d)"

definition baseRowsForCompare :: "jsstring list \<Rightarrow> row list \<Rightarrow> row list" where
  "baseRowsForCompare tokens rs = filter (passExclude tokens) rs"

definition excludeStageOld :: "jsstring \<Rightarrow> row list \<Rightarrow> row list" where
  \<comment> \<open>the exclusion step of the earlier variant of \<open>filtered\<close> (src/src/App.tsx):
      \<open>if (excludeAgent.trim()) d = d.filter(r => r.agent !== excludeAgent.trim())\<close>\<close>
  "excludeStageOld excludeAgent d =
     (if trim excludeAgent \<noteq> [] then filter (\<lambda>r. agent r \<noteq> trim excludeAgent) d else d)"

section \<open>Aggregator\<close>

definition sumByKey :: "(row \<Rightarrow> jsstring) \<Rightarrow> (row \<Rightarrow> real) \<Rightarrow> row list \<Rightarrow> (jsstring \<times> jsnum) list" where
  \<comment> \<open>\<open>rows.forEach(r => m.set(key(r), (m.get(key(r)) ?? 0) + amount(r)))\<close> on a new Map\<close>
  "sumByKey key amount rs =
     foldl (\<lambda>m r. mapSet m (key r)
                     (fadd (case mapGet m (key r) of None \<Rightarrow> Fin 0 | Some v \<Rightarrow> v)
                           (Fin (amount r))))
           [] rs"

definition sortDesc :: "('a \<Rightarrow> real) \<Rightarrow> 'a list \<Rightarrow> 'a list" where
  \<comment> \<open>\<open>xs.sort((a, b) => f(b) - f(a))\<close> for finite \<open>f\<close>: \<open>Array.prototype.sort\<close> is
      stable, and so is the insertion sort behind \<open>sort_key\<close>\<close>
  "sortDesc f xs = sort_key (\<lambda>x. - f x) xs"

definition descRank :: "jsnum \<Rightarrow> nat" where
  "descRank n = (case n of PosInf \<Rightarrow> 0 | NegInf \<Rightarrow> 2 | _ \<Rightarrow> 1)"

definition descKey :: "jsnum \<Rightarrow> real" where
  "descKey n = (case n of Fin x \<Rightarrow> - x | _ \<Rightarrow> 0)"

definition sortDescNum :: "('a \<Rightarrow> jsnum) \<Rightarrow> 'a list \<Rightarrow> 'a list" where
  \<comment> \<open>\<open>xs.sort((a, b) => f(b) - f(a))\<close> for sums that may have overflowed: the comparator
      puts \<open>Infinity\<close> first and \<open>-Infinity\<close> last, and of two equal infinities it gives
      \<open>NaN\<close>, which the sort takes for 0.  A \<open>NaN\<close> among the values makes the comparator
      inconsistent and the order a choice of the engine; the sums of rows are never
      \<open>NaN\<close>, and the model sorts one as it sorts 0\<close>
  "sortDescNum f xs = sort_key (\<lambda>x. descRank (f x)) (sort_key (\<lambda>x. descKey (f x)) xs)"

record paretoPoint =
  pMerchant :: jsstring
  pOpen :: jsnum
  cumulativeShare :: jsnum

definition sharePercent :: "jsnum \<Rightarrow> jsnum \<Rightarrow> jsnum" where
  \<comment> \<open>\<open>+((cum / total * 100).toFixed(2))\<close>\<close>
  "sharePercent cum tot = fixedNum 2 (fmul (fdiv cum tot) (Fin 100))"

fun cumulate :: "jsnum \<Rightarrow> jsnum \<Rightarrow> (jsstring \<times> jsnum) list \<Rightarrow> paretoPoint list" where
  \<comment> \<open>the \<open>map\<close> with the running sum \<open>cum\<close>:
      \<open>+(((cum += d.open) / total * 100).toFixed(2))\<close>, \<open>tot\<close> being \<open>total\<close>\<close>
  "cumulate tot cum [] = []"
| "cumulate tot cum (d # ds) =
     \<lparr> pMerchant = fst d, pOpen = snd d,
       cumulativeShare = sharePercent (fadd cum (snd d)) tot \<rparr>
     # cumulate tot (fadd cum (snd d)) ds"

definition numSum :: "jsnum list \<Rightarrow> jsnum" where
  \<comment> \<open>\<open>xs.reduce((s, x) => s + x, 0)\<close>\<close>
  "numSum xs = foldl fadd (Fin 0) xs"

definition orOne :: "jsnum \<Rightarrow> jsnum" where
  \<comment> \<open>\<open>s || 1\<close>: zero and \<open>NaN\<close> are the falsy numbers\<close>
  "orOne s = (if s = Fin 0 \<or> s = NaN then Fin 1 else s)"

definition paretoTotal :: "(jsstring \<times> jsnum) list \<Rightarrow> jsnum" where
  \<comment> \<open>\<open>list.reduce((s, d) => s + d.open, 0) || 1\<close>\<close>
  "paretoTotal lst = orOne (foldl (\<lambda>s d. fadd s (snd d)) (Fin 0) lst)"

definition useParetoByMerchant :: "row list \<Rightarrow> paretoPoint list" where
  "useParetoByMerchant rs =
     (let lst = sortDescNum snd (sumByKey merchant openAmount rs)
      in cumulate (paretoTotal lst) (Fin 0) lst)"

definition useRevenueShareByAgent :: "row list \<Rightarrow> (jsstring \<times> jsnum) list" where
  "useRevenueShareByAgent rs = sortDescNum snd (sumByKey agent revenue rs)"

definition useTopOpenByMerchant :: "row list \<Rightarrow> nat \<Rightarrow> (jsstring \<times> jsnum) list" where
  "useTopOpenByMerchant rs n = rev (take n (sortDescNum snd (sumByKey merchant openAmount rs)))"

fun fle :: "jsnum \<Rightarrow> jsnum \<Rightarrow> bool" where
  \<comment> \<open>\<open>a <= b\<close>: false when either side is \<open>NaN\<close>\<close>
  "fle (Fin x) (Fin y) = (x \<le> y)"
| "fle NaN _ = False"
| "fle _ NaN = False"
| "fle NegInf _ = True"
| "fle _ PosInf = True"
| "fle PosInf _ = False"
| "fle _ NegInf = False"

fun nonDecreasing :: "jsnum list \<Rightarrow> bool" where
  \<comment> \<open>each number of the sequence is \<open><=\<close> the next\<close>
  "nonDecreasing (a # b # xs) = (fle a b \<and> nonDecreasing (b # xs))"
| "nonDecreasing _ = True"

definition nonnegNum :: "jsnum \<Rightarrow> bool" where
  \<comment> \<open>a number that is not negative: a finite one from 0 on, or \<open>Infinity\<close>\<close>
  "nonnegNum n = (case n of Fin x \<Rightarrow> 0 \<le> x | PosInf \<Rightarrow> True | _ \<Rightarrow> False)"

subsection \<open>Ratio histogram\<close>

text \<open>
  A bin of the histogram: its count and its bounds \<open>_a\<close> and \<open>_b\<close>.  The label of a bin
  prints the two bounds as whole percents and is left out.
\<close>

record histogramBin =
  binCount :: nat
  binFrom :: jsnum
  binTo :: jsnum

datatype jsError = TypeError

definition defaultStep :: jsnum where
  \<comment> \<open>the literal \<open>0.05\<close>, the step of the one call of \<open>useRatioHistogram\<close>\<close>
  "defaultStep = toDouble (5 / 100)"

definition epsilon12 :: jsnum where
  \<comment> \<open>the literal \<open>1e-12\<close>\<close>
  "epsilon12 = toDouble (1 / 10 ^ 12)"

definition toStep :: "jsnum \<Rightarrow> jsnum \<Rightarrow> (jsnum \<Rightarrow> jsnum) \<Rightarrow> jsnum" where
  \<comment> \<open>\<open>toStep\<close>: \<open>f(x / step) * step\<close>\<close>
  "toStep step x f = fmul (f (fdiv x step)) step"

definition newBin :: "jsnum \<Rightarrow> jsnum \<Rightarrow> histogramBin" where
  \<comment> \<open>the bin pushed for \<open>a\<close>: count 0, \<open>_a = a\<close>, \<open>_b = +(a + step).toFixed(10)\<close>\<close>
  "newBin a step = \<lparr> binCount = 0, binFrom = a, binTo = fixedNum 10 (fadd a step) \<rparr>"

partial_function (option) binsFrom :: "jsnum \<Rightarrow> jsnum \<Rightarrow> jsnum \<Rightarrow> histogramBin list option" where
  \<comment> \<open>\<open>for (let a = lo; a < hi; a += step) bins.push(...)\<close>; a loop that never ends is \<open>None\<close>\<close>
  "binsFrom a hi step =
     (if flt a hi then
        Option.bind (binsFrom (fadd a step) hi step) (\<lambda>bs. Some (newBin a step # bs))
      else Some [])"

declare binsFrom.simps [code]

definition binIndex :: "jsnum \<Rightarrow> jsnum \<Rightarrow> jsnum \<Rightarrow> nat \<Rightarrow> real \<Rightarrow> jsnum" where
  \<comment> \<open>\<open>idx\<close> for a ratio, among \<open>n\<close> bins\<close>
  "binIndex lo hi step n v =
     (let x = fmin (Fin v) (fsub hi epsilon12)
      in fmax (Fin 0) (fmin (Fin (real n - 1)) (ffloor (fdiv (fsub x lo) step))))"

definition countRow :: "jsnum \<Rightarrow> jsnum \<Rightarrow> jsnum \<Rightarrow> histogramBin list \<Rightarrow> row \<Rightarrow> jsError + histogramBin list" where
  \<comment> \<open>\<open>bins[idx].count++\<close>: \<open>bins[idx]\<close> is a bin when \<open>idx\<close> is an index of the array and
      \<open>undefined\<close> otherwise, and reading the count of \<open>undefined\<close> throws\<close>
  "countRow lo hi step bins r =
     (case binIndex lo hi step (length bins) (ratio r) of
        Fin i \<Rightarrow>
          if 0 \<le> i \<and> i < real (length bins) \<and> of_int \<lfloor>i\<rfloor> = i
          then Inr (bins[nat \<lfloor>i\<rfloor> :=
                      (bins ! nat \<lfloor>i\<rfloor>)\<lparr> binCount := binCount (bins ! nat \<lfloor>i\<rfloor>) + 1 \<rparr>])
          else Inl TypeError
      | _ \<Rightarrow> Inl TypeError)"

fun countRows :: "jsnum \<Rightarrow> jsnum \<Rightarrow> jsnum \<Rightarrow> histogramBin list \<Rightarrow> row list \<Rightarrow> jsError + histogramBin list" where
  \<comment> \<open>the \<open>forEach\<close> over the rows; an exception ends it\<close>
  "countRows lo hi step bins [] = Inr bins"
| "countRows lo hi step bins (r # rs) =
     (case countRow lo hi step bins r of
        Inl e \<Rightarrow> Inl e
      | Inr bins' \<Rightarrow> countRows lo hi step bins' rs)"

definition binHolds :: "histogramBin \<Rightarrow> real \<Rightarrow> bool" where
  \<comment> \<open>the ratio lies within the bounds of the bin, the lower one included and the upper
      one not, as the index \<open>floor((x - lo) / step)\<close> takes them\<close>
  "binHolds b v \<longleftrightarrow> fle (binFrom b) (Fin v) \<and> flt (Fin v) (binTo b)"

definition useRatioHistogram :: "row list \<Rightarrow> jsnum \<Rightarrow> (jsError + histogramBin list) option" where
  \<comment> \<open>\<open>useRatioHistogram\<close>.  \<open>Math.min\<close> of no argument is \<open>Infinity\<close>, \<open>Math.max\<close> of none
      \<open>-Infinity\<close>\<close>
  "useRatioHistogram rs step =
     (if length rs = 0 then Some (Inr [])
      else
        (let mn0 = foldl fmin PosInf (map (\<lambda>r. Fin (ratio r)) rs);
             mx0 = foldl fmax NegInf (map (\<lambda>r. Fin (ratio r)) rs);
             mn = (if \<not> isFiniteNum mn0 then Fin 0 else mn0);
             mx = (if \<not> isFiniteNum mx0 then Fin 0 else mx0);
             lo = toStep step (fsub mn step) ffloor;
             hi = toStep step (fadd mx step) fceil
         in map_option (\<lambda>bins. countRows lo hi step bins rs) (binsFrom lo hi step)))"

section \<open>Period comparator\<close>

datatype keyJoin = AgentAndMerchant | MerchantOnly

definition keyFn :: "keyJoin \<Rightarrow> row \<Rightarrow> jsstring" where
  "keyFn kj r =
     (case kj of MerchantOnly \<Rightarrow> merchant r
      | AgentAndMerchant \<Rightarrow> agent r @ ascii ''__'' @ merchant r)"

text \<open>
  A row of the comparison.  The source names the six period columns after the two
  months; when both selectors hold the same month the two sides are the same rows and
  the columns of one name hold one value.
\<close>

record comparisonRow =
  cAgent :: jsstring
  cMerchant :: jsstring
  openA :: real
  openB :: real
  deltaOpen :: real
  revenueA :: real
  revenueB :: real
  deltaRevenue :: real
  ratioA :: real
  ratioB :: real
  deltaRatio :: real

definition keyMap :: "keyJoin \<Rightarrow> row list \<Rightarrow> (jsstring \<times> row) list" where
  \<comment> \<open>\<open>rs.forEach(r => map.set(keyFn(r), r))\<close> on a new Map\<close>
  "keyMap kj rs = foldl (\<lambda>m r. mapSet m (keyFn kj r) r) [] rs"

definition side :: "(row \<Rightarrow> real) \<Rightarrow> row option \<Rightarrow> real" where
  \<comment> \<open>\<open>a?.field ?? 0\<close>\<close>
  "side f a = (case a of None \<Rightarrow> 0 | Some r \<Rightarrow> f r)"

definition label :: "(row \<Rightarrow> jsstring) \<Rightarrow> row option \<Rightarrow> row option \<Rightarrow> jsstring" where
  \<comment> \<open>\<open>a?.field ?? b?.field ?? ""\<close>\<close>
  "label f a b = (case a of Some r \<Rightarrow> f r | None \<Rightarrow> (case b of Some r \<Rightarrow> f r | None \<Rightarrow> []))"

definition joinRow :: "(jsstring \<times> row) list \<Rightarrow> (jsstring \<times> row) list \<Rightarrow> jsstring \<Rightarrow> comparisonRow" where
  \<comment> \<open>the row pushed for a key.  Each of the three differences is the difference of the
      two numbers it is taken from, as the real it denotes; the rounding of that difference
      to a double is left out here\<close>
  "joinRow mapA mapB k =
     (let a = mapGet mapA k; b = mapGet mapB k
      in \<lparr> cAgent = label agent a b, cMerchant = label merchant a b,
           openA = side openAmount a, openB = side openAmount b,
           deltaOpen = side openAmount b - side openAmount a,
           revenueA = side revenue a, revenueB = side revenue b,
           deltaRevenue = side revenue b - side revenue a,
           ratioA = side ratio a, ratioB = side ratio b,
           deltaRatio = side ratio b - side ratio a \<rparr>)"

definition periodRows :: "row list \<Rightarrow> jsstring option \<Rightarrow> row list" where
  \<comment> \<open>\<open>base.filter(r => r.month === m)\<close>\<close>
  "periodRows base m = filter (\<lambda>r. month r = m) base"

definition compareRows :: "row list \<Rightarrow> jsstring option \<Rightarrow> jsstring option \<Rightarrow> keyJoin \<Rightarrow> comparisonRow list" where
  \<comment> \<open>\<open>compareRows\<close> over \<open>baseRowsForCompare\<close>\<close>
  "compareRows base mA mB kj =
     (if \<not> truthy mA \<or> \<not> truthy mB then []
      else
        (let A = periodRows base mA;
             B = periodRows base mB;
             mapA = keyMap kj A;
             mapB = keyMap kj B;
             keys = distinctFirst (mapKeys mapA @ mapKeys mapB)
         in sortDesc deltaRevenue (map (joinRow mapA mapB) keys)))"

section \<open>Properties of rounding to a double\<close>

lemma powr_powi: "(2::real) powr (real_of_int k) = 2 powi k"
  by (simp add: powr_real_of_int power_int_def power_divide inverse_eq_divide)

lemma pow_floor_log:
  assumes "0 < (x::real)"
  shows "2 powi \<lfloor>log 2 x\<rfloor> \<le> x" and "x < 2 powi (\<lfloor>log 2 x\<rfloor> + 1)"
proof -
  have "2 powr (real_of_int \<lfloor>log 2 x\<rfloor>) \<le> x \<and> x < 2 powr (real_of_int (\<lfloor>log 2 x\<rfloor> + 1))"
    using floor_log_eq_powr_iff [of x 2 "\<lfloor>log 2 x\<rfloor>"] assms by simp
  then show "2 powi \<lfloor>log 2 x\<rfloor> \<le> x" and "x < 2 powi (\<lfloor>log 2 x\<rfloor> + 1)"
    unfolding powr_powi by simp_all
qed

lemma floor_log_eqI:
  assumes "2 powi k \<le> (x::real)" "x < 2 powi (k + 1)"
  shows "\<lfloor>log 2 x\<rfloor> = k"
proof -
  have "0 < x" using assms(1) by (smt (verit) zero_less_power_int)
  then show ?thesis
    using floor_log_eq_powr_iff [of x 2 k] assms unfolding powr_powi
    by (simp add: powr_powi [symmetric] del: powr_powi) 
qed

lemma floor_log_less:
  assumes "0 < (x::real)" "x < 2 powi k"
  shows "\<lfloor>log 2 x\<rfloor> < k"
proof (rule ccontr)
  assume "\<not> \<lfloor>log 2 x\<rfloor> < k"
  then have "k \<le> \<lfloor>log 2 x\<rfloor>" by simp
  then have "(2::real) powi k \<le> 2 powi \<lfloor>log 2 x\<rfloor>" by (intro power_int_increasing) simp_all
  with pow_floor_log(1) [OF assms(1)] assms(2) show False by simp
qed

lemma floor_log_ge:
  assumes "2 powi k \<le> (x::real)"
  shows "k \<le> \<lfloor>log 2 x\<rfloor>"
proof (rule ccontr)
  assume "\<not> k \<le> \<lfloor>log 2 x\<rfloor>"
  then have "\<lfloor>log 2 x\<rfloor> + 1 \<le> k" by simp
  then have "(2::real) powi (\<lfloor>log 2 x\<rfloor> + 1) \<le> 2 powi k" by (intro power_int_increasing) simp_all
  moreover have "0 < x" using assms by (smt (verit) zero_less_power_int)
  ultimately show False using pow_floor_log(2) [of x] assms by simp
qed

lemma floor_log_mono:
  assumes "0 < (x::real)" "x \<le> y"
  shows "\<lfloor>log 2 x\<rfloor> \<le> \<lfloor>log 2 y\<rfloor>"
  using floor_log_ge [of "\<lfloor>log 2 x\<rfloor>" y] pow_floor_log(1) [OF assms(1)] assms(2) by simp

lemma roundHalfEven_int: "roundHalfEven (of_int k) = k"
  by (simp add: roundHalfEven_def)

lemma roundHalfEven_bounds: "\<lfloor>y\<rfloor> \<le> roundHalfEven y" "roundHalfEven y \<le> \<lfloor>y\<rfloor> + 1"
  by (simp_all add: roundHalfEven_def Let_def)

lemma roundHalfEven_mono:
  assumes "x \<le> y"
  shows "roundHalfEven x \<le> roundHalfEven y"
proof (cases "\<lfloor>x\<rfloor> = \<lfloor>y\<rfloor>")
  case True
  then show ?thesis using assms by (simp add: roundHalfEven_def Let_def)
next
  case False
  then have "\<lfloor>x\<rfloor> + 1 \<le> \<lfloor>y\<rfloor>" using floor_mono [OF assms] by simp
  then show ?thesis using roundHalfEven_bounds(2) [of x] roundHalfEven_bounds(1) [of y] by simp
qed


lemma roundHalfEven_minus: "roundHalfEven (- y) = - roundHalfEven y"
proof (cases "y \<in> \<int>")
  case True
  then obtain k where "y = of_int k" by (auto elim: Ints_cases)
  then show ?thesis using roundHalfEven_int [of "- k"] roundHalfEven_int [of k] by simp
next
  case False
  then have f: "\<lfloor>- y\<rfloor> = - \<lfloor>y\<rfloor> - 1"
    by (simp add: floor_minus ceiling_altdef) (metis Ints_of_int)
  show ?thesis
    unfolding roundHalfEven_def Let_def f by (simp; linarith?)
qed

lemma roundHalfEven_eqI:
  assumes "\<bar>y - of_int k\<bar> < 1 / 2"
  shows "roundHalfEven y = k"
proof -
  have a: "y - of_int k < 1 / 2" "of_int k - y < 1 / 2" using assms by linarith+
  have "\<lfloor>y\<rfloor> = k \<or> \<lfloor>y\<rfloor> = k - 1" using a by linarith
  then show ?thesis
  proof
    assume "\<lfloor>y\<rfloor> = k"
    then show ?thesis using a by (simp add: roundHalfEven_def Let_def)
  next
    assume f: "\<lfloor>y\<rfloor> = k - 1"
    have "1 / 2 < y - of_int (k - 1)" using a by simp
    then show ?thesis using f by (simp add: roundHalfEven_def Let_def)
  qed
qed

lemma ulpExponent_minus: "ulpExponent (- x) = ulpExponent x"
  by (simp add: ulpExponent_def)

lemma ulpExponent_ge: "- 1074 \<le> ulpExponent x"
  by (simp add: ulpExponent_def)

lemma ulpExponent_mono:
  assumes "0 < x" "x \<le> y"
  shows "ulpExponent x \<le> ulpExponent y"
  using floor_log_mono [of "\<bar>x\<bar>" "\<bar>y\<bar>"] assms by (simp add: ulpExponent_def)

lemma roundFinite_0: "roundFinite 0 = 0"
  by (simp add: roundFinite_def roundHalfEven_def)

lemma roundFinite_minus: "roundFinite (- x) = - roundFinite x"
  by (simp add: roundFinite_def ulpExponent_minus roundHalfEven_minus)

lemma roundFinite_le_grid:
  assumes "x \<le> of_int k * 2 powi ulpExponent x"
  shows "roundFinite x \<le> of_int k * 2 powi ulpExponent x"
proof -
  have g: "(0::real) < 2 powi ulpExponent x" by simp
  have "x / 2 powi ulpExponent x \<le> of_int k" using assms g by (simp add: field_simps)
  then have "roundHalfEven (x / 2 powi ulpExponent x) \<le> k"
    using roundHalfEven_mono [of "x / 2 powi ulpExponent x" "of_int k"] by (simp add: roundHalfEven_int)
  then have "(of_int (roundHalfEven (x / 2 powi ulpExponent x)) :: real) \<le> of_int k" by simp
  then show ?thesis unfolding roundFinite_def using g by (simp add: mult_right_mono)
qed

lemma roundFinite_ge_grid:
  assumes "of_int k * 2 powi ulpExponent x \<le> x"
  shows "of_int k * 2 powi ulpExponent x \<le> roundFinite x"
proof -
  have g: "(0::real) < 2 powi ulpExponent x" by simp
  have "of_int k \<le> x / 2 powi ulpExponent x" using assms g by (simp add: field_simps)
  then have "k \<le> roundHalfEven (x / 2 powi ulpExponent x)"
    using roundHalfEven_mono [of "of_int k" "x / 2 powi ulpExponent x"] by (simp add: roundHalfEven_int)
  then have "(of_int k :: real) \<le> of_int (roundHalfEven (x / 2 powi ulpExponent x))" by simp
  then show ?thesis unfolding roundFinite_def using g by (simp add: mult_right_mono)
qed

lemma roundFinite_nonneg:
  assumes "0 \<le> x"
  shows "0 \<le> roundFinite x"
  using roundFinite_ge_grid [of 0 x] assms by simp

lemma powi_split:
  assumes "a \<le> b"
  shows "(2::real) powi b = of_int (2 ^ nat (b - a)) * 2 powi a"
proof -
  have "(2::real) powi b = 2 powi ((b - a) + a)" by simp
  also have "\<dots> = 2 powi (b - a) * 2 powi a" by (rule power_int_add) simp
  also have "(2::real) powi (b - a) = 2 ^ nat (b - a)" using assms by (simp add: power_int_def)
  finally show ?thesis by simp
qed

lemma roundFinite_mono_pos:
  assumes "0 < x" "x \<le> y"
  shows "roundFinite x \<le> roundFinite y"
proof (cases "ulpExponent x = ulpExponent y")
  case True
  have g: "(0::real) < 2 powi ulpExponent y" by simp
  have "x / 2 powi ulpExponent y \<le> y / 2 powi ulpExponent y"
    using assms(2) g by (simp add: divide_right_mono)
  then have "roundHalfEven (x / 2 powi ulpExponent y) \<le> roundHalfEven (y / 2 powi ulpExponent y)"
    by (rule roundHalfEven_mono)
  then have "(of_int (roundHalfEven (x / 2 powi ulpExponent y)) :: real)
               \<le> of_int (roundHalfEven (y / 2 powi ulpExponent y))" by simp
  then show ?thesis unfolding roundFinite_def True using g by (simp add: mult_right_mono)
next
  case False
  have y: "0 < y" using assms by simp
  have lt: "ulpExponent x < ulpExponent y" using ulpExponent_mono [OF assms] False by simp
  then have "- 1074 < ulpExponent y" using ulpExponent_ge [of x] by simp
  then have ey: "ulpExponent y = \<lfloor>log 2 y\<rfloor> - 52" using y by (simp add: ulpExponent_def max_def split: if_splits)
  have "\<lfloor>log 2 x\<rfloor> - 52 \<le> ulpExponent x" using assms(1) by (simp add: ulpExponent_def)
  then have k: "\<lfloor>log 2 x\<rfloor> + 1 \<le> \<lfloor>log 2 y\<rfloor>" using lt ey by simp
  define B :: real where "B = 2 powi \<lfloor>log 2 y\<rfloor>"
  have By: "B \<le> y" unfolding B_def using pow_floor_log(1) [OF y] .
  have "x < 2 powi (\<lfloor>log 2 x\<rfloor> + 1)" using pow_floor_log(2) [OF assms(1)] .
  also have "\<dots> \<le> B" unfolding B_def using k by (intro power_int_increasing) simp_all
  finally have xB: "x \<le> B" by simp
  have Bx: "B = of_int (2 ^ nat (\<lfloor>log 2 y\<rfloor> - ulpExponent x)) * 2 powi ulpExponent x"
    unfolding B_def using lt ey by (intro powi_split) simp
  have By': "B = of_int (2 ^ nat (\<lfloor>log 2 y\<rfloor> - ulpExponent y)) * 2 powi ulpExponent y"
    unfolding B_def using ey by (intro powi_split) simp
  have "roundFinite x \<le> B"
    using roundFinite_le_grid [of x "2 ^ nat (\<lfloor>log 2 y\<rfloor> - ulpExponent x)"] xB Bx by simp
  moreover have "B \<le> roundFinite y"
    using roundFinite_ge_grid [of "2 ^ nat (\<lfloor>log 2 y\<rfloor> - ulpExponent y)" y] By By' by simp
  ultimately show ?thesis by simp
qed

lemma roundFinite_mono:
  assumes "x \<le> y"
  shows "roundFinite x \<le> roundFinite y"
proof -
  consider "0 < x" | "x \<le> 0" "0 \<le> y" | "y < 0" by linarith
  then show ?thesis
  proof cases
    case 1 then show ?thesis using assms by (rule roundFinite_mono_pos)
  next
    case 2
    have "roundFinite x \<le> 0" using roundFinite_nonneg [of "- x"] 2(1) by (simp add: roundFinite_minus)
    moreover have "0 \<le> roundFinite y" using 2(2) by (rule roundFinite_nonneg)
    ultimately show ?thesis by simp
  next
    case 3
    have "roundFinite (- y) \<le> roundFinite (- x)" using 3 assms by (intro roundFinite_mono_pos) simp_all
    then show ?thesis by (simp add: roundFinite_minus)
  qed
qed

lemma toDouble_mono:
  assumes "x \<le> y" "toDouble x = Fin a" "toDouble y = Fin b"
  shows "a \<le> b"
  using assms roundFinite_mono [OF assms(1)] by (simp add: toDouble_def split: if_splits)

lemma toDouble_finite:
  assumes "\<bar>x\<bar> < overflowThreshold"
  shows "toDouble x = Fin (roundFinite x)"
  using assms by (simp add: toDouble_def)

lemma toDouble_0: "toDouble 0 = Fin 0"
  by (simp add: toDouble_def roundFinite_0 overflowThreshold_def)

subsection \<open>Doubles round to themselves\<close>

lemma isDouble_minus: "isDouble (- x) = isDouble x"
proof -
  have "isDouble (- x)" if "isDouble x" for x
  proof -
    from that obtain m e where "\<bar>m\<bar> < 2 ^ 53" "- 1074 \<le> e" "e \<le> 971" "x = of_int m * 2 powi e"
      unfolding isDouble_def by blast
    then have "\<bar>- m\<bar> < 2 ^ 53 \<and> - 1074 \<le> e \<and> e \<le> 971 \<and> - x = of_int (- m) * 2 powi e" by simp
    then show ?thesis unfolding isDouble_def by blast
  qed
  from this [of x] this [of "- x"] show ?thesis by auto
qed

lemma isDouble_0: "isDouble 0"
  unfolding isDouble_def by (rule exI [of _ 0], rule exI [of _ 0]) simp

lemma roundFinite_exact_pos:
  assumes "\<bar>m\<bar> < 2 ^ 53" "- 1074 \<le> e" "x = of_int m * 2 powi e" "0 < x"
  shows "roundFinite x = x"
proof -
  have "0 < (of_int m :: real) * 2 powi e" using assms(3,4) by simp
  then have "0 < (of_int m :: real)" by (rule zero_less_mult_pos2) simp
  then have m: "0 < m" by simp
  have "m < 2 ^ 53" using assms(1) m by simp
  then have "(of_int m :: real) < of_int (2 ^ 53)" by (simp only: of_int_less_iff)
  then have "(of_int m :: real) < 2 ^ 53" by simp
  then have "x < 2 ^ 53 * 2 powi e" unfolding assms(3) by (simp add: mult_strict_right_mono)
  also have "\<dots> = 2 powi (e + 53)" by (simp add: power_int_add)
  finally have "\<lfloor>log 2 x\<rfloor> < e + 53" using assms(4) by (intro floor_log_less)
  then have le0: "ulpExponent x \<le> e" using assms(2,4) by (simp add: ulpExponent_def)
  define u where "u = ulpExponent x"
  have le: "u \<le> e" using le0 by (simp add: u_def)
  have s: "(2::real) powi e = of_int (2 ^ nat (e - u)) * 2 powi u" by (rule powi_split [OF le])
  have "x = of_int m * (of_int (2 ^ nat (e - u)) * 2 powi u)"
    using assms(3) s by simp
  then have xg: "x = of_int (m * 2 ^ nat (e - u)) * 2 powi u" by simp
  have "(0::real) < 2 powi u" by simp
  then have "x / 2 powi u = of_int (m * 2 ^ nat (e - u))"
    using xg by (simp add: field_simps)
  then have "roundHalfEven (x / 2 powi u) = m * 2 ^ nat (e - u)"
    by (simp only: roundHalfEven_int)
  then have "roundFinite x = of_int (m * 2 ^ nat (e - u)) * 2 powi u"
    unfolding roundFinite_def u_def by simp
  with xg show ?thesis by simp
qed

lemma roundFinite_exact:
  assumes "isDouble x"
  shows "roundFinite x = x"
proof -
  from assms obtain m e where me: "\<bar>m\<bar> < 2 ^ 53" "- 1074 \<le> e" "e \<le> 971" "x = of_int m * 2 powi e"
    unfolding isDouble_def by blast
  consider "0 < x" | "x = 0" | "x < 0" by linarith
  then show ?thesis
  proof cases
    case 1 then show ?thesis using roundFinite_exact_pos [OF me(1,2,4)] by simp
  next
    case 2 then show ?thesis by (simp add: roundFinite_0)
  next
    case 3
    have "roundFinite (- x) = - x"
      using roundFinite_exact_pos [of "- m" e "- x"] me 3 by simp
    then show ?thesis by (simp add: roundFinite_minus)
  qed
qed

lemma isDouble_bound:
  assumes "isDouble x"
  shows "\<bar>x\<bar> < overflowThreshold"
proof -
  from assms obtain m e where me: "\<bar>m\<bar> < 2 ^ 53" "- 1074 \<le> e" "e \<le> 971" "x = of_int m * 2 powi e"
    unfolding isDouble_def by blast
  have "\<bar>m\<bar> \<le> 2 ^ 53 - 1" using me(1) by simp
  then have "(of_int \<bar>m\<bar> :: real) \<le> of_int (2 ^ 53 - 1)" by (simp only: of_int_le_iff)
  then have m: "\<bar>of_int m :: real\<bar> \<le> 2 ^ 53 - 1" by simp
  have "(2::real) powi e \<le> 2 powi 971" using me(3) by (intro power_int_increasing) simp_all
  then have e: "(2::real) powi e \<le> 2 ^ 971" by simp
  have "\<bar>x\<bar> = \<bar>of_int m :: real\<bar> * 2 powi e" unfolding me(4) by (simp add: abs_mult)
  also have "\<dots> \<le> (2 ^ 53 - 1) * 2 ^ 971" using m e by (intro mult_mono) simp_all
  also have "\<dots> < overflowThreshold" by (simp add: overflowThreshold_def)
  finally show ?thesis .
qed

lemma toDouble_exact:
  assumes "isDouble x"
  shows "toDouble x = Fin x"
  using toDouble_finite [OF isDouble_bound [OF assms]] roundFinite_exact [OF assms] by simp

lemma roundFinite_isDouble_pos:
  assumes "0 < x" "x < overflowThreshold"
  shows "isDouble (roundFinite x)"
proof -
  define u where "u = ulpExponent x"
  define n where "n = roundHalfEven (x / 2 powi u)"
  have g: "(0::real) < 2 powi u" by simp
  have r: "roundFinite x = of_int n * 2 powi u" by (simp add: roundFinite_def u_def n_def)
  have u1: "- 1074 \<le> u" by (simp add: u_def ulpExponent_ge)
  have uk: "\<lfloor>log 2 x\<rfloor> - 52 \<le> u" using assms(1) by (simp add: u_def ulpExponent_def)
  have "overflowThreshold \<le> 2 powi 1024" by (simp add: overflowThreshold_def)
  then have "x < 2 powi 1024" using assms(2) by simp
  then have "\<lfloor>log 2 x\<rfloor> < 1024" using assms(1) by (intro floor_log_less)
  then have u2: "u \<le> 971" using assms(1) by (simp add: u_def ulpExponent_def)
  have "x < 2 powi (\<lfloor>log 2 x\<rfloor> + 1)" using pow_floor_log(2) [OF assms(1)] .
  also have "\<dots> \<le> 2 powi (u + 53)" using uk by (intro power_int_increasing) simp_all
  also have "\<dots> = 2 ^ 53 * 2 powi u" by (simp add: power_int_add)
  finally have "x / 2 powi u < 2 ^ 53" using g by (simp add: field_simps)
  then have y: "x / 2 powi u \<le> of_int (2 ^ 53)" by simp
  have n2: "n \<le> 2 ^ 53"
    using roundHalfEven_mono [OF y] unfolding n_def roundHalfEven_int .
  have "(0::real) \<le> x / 2 powi u" using assms(1) g by simp
  then have "roundHalfEven 0 \<le> n" unfolding n_def by (rule roundHalfEven_mono)
  then have n1: "0 \<le> n" using roundHalfEven_int [of 0] by simp
  show ?thesis
  proof (cases "n < 2 ^ 53")
    case True
    then have "\<bar>n\<bar> < 2 ^ 53 \<and> - 1074 \<le> u \<and> u \<le> 971 \<and> roundFinite x = of_int n * 2 powi u"
      using n1 u1 u2 r by simp
    then show ?thesis unfolding isDouble_def by blast
  next
    case False
    then have n: "n = 2 ^ 53" using n2 by simp
    have "u \<noteq> 971"
    proof
      assume u: "u = 971"
      have "x / 2 powi u < overflowThreshold / 2 powi u" using assms(2) g by (simp add: divide_strict_right_mono)
      also have "\<dots> = 2 ^ 53 - 1 / 2" by (simp add: u overflowThreshold_def)
      finally have lt: "x / 2 powi u < 2 ^ 53 - 1 / 2" .
      then have "x / 2 powi u < 2 ^ 53" by linarith
      then have "x / 2 powi u < of_int (2 ^ 53)" by simp
      then have f: "\<lfloor>x / 2 powi u\<rfloor> < 2 ^ 53" by (simp only: floor_less_iff)
      have "roundHalfEven (x / 2 powi u) \<le> 2 ^ 53 - 1"
      proof (cases "\<lfloor>x / 2 powi u\<rfloor> = 2 ^ 53 - 1")
        case True
        have "x / 2 powi u - of_int \<lfloor>x / 2 powi u\<rfloor> < 1 / 2" unfolding True using lt by simp
        then show ?thesis using True by (simp add: roundHalfEven_def Let_def)
      next
        case False
        then have "\<lfloor>x / 2 powi u\<rfloor> + 1 \<le> 2 ^ 53 - 1" using f by linarith
        then show ?thesis using roundHalfEven_bounds(2) [of "x / 2 powi u"] by linarith
      qed
      then show False using n by (simp add: n_def)
    qed
    then have u3: "u + 1 \<le> 971" using u2 by simp
    have "roundFinite x = 2 ^ 53 * 2 powi u" using r n by simp
    also have "\<dots> = 2 ^ 52 * 2 powi (u + 1)" by (simp add: power_int_add)
    finally have "\<bar>2 ^ 52 :: int\<bar> < 2 ^ 53 \<and> - 1074 \<le> u + 1 \<and> u + 1 \<le> 971
                  \<and> roundFinite x = of_int (2 ^ 52) * 2 powi (u + 1)"
      using u1 u3 by simp
    then show ?thesis unfolding isDouble_def by blast
  qed
qed

lemma roundFinite_isDouble:
  assumes "\<bar>x\<bar> < overflowThreshold"
  shows "isDouble (roundFinite x)"
proof -
  consider "0 < x" | "x = 0" | "x < 0" by linarith
  then show ?thesis
  proof cases
    case 1 then show ?thesis using assms by (intro roundFinite_isDouble_pos) simp_all
  next
    case 2 then show ?thesis by (simp add: roundFinite_0 isDouble_0)
  next
    case 3
    then have "isDouble (roundFinite (- x))" using assms by (intro roundFinite_isDouble_pos) simp_all
    then show ?thesis by (simp add: roundFinite_minus isDouble_minus)
  qed
qed

lemma toDouble_isDouble:
  assumes "toDouble x = Fin a"
  shows "isDouble a"
  using assms roundFinite_isDouble [of x] by (auto simp: toDouble_def split: if_splits)


subsection \<open>Particular doubles\<close>

lemma isDouble_of_int:
  assumes "\<bar>n\<bar> \<le> 2 ^ 53"
  shows "isDouble (of_int n)"
proof (cases "\<bar>n\<bar> < 2 ^ 53")
  case True
  then have "\<bar>n\<bar> < 2 ^ 53 \<and> - 1074 \<le> (0::int) \<and> (0::int) \<le> 971 \<and> (of_int n :: real) = of_int n * 2 powi 0"
    by simp
  then show ?thesis unfolding isDouble_def by blast
next
  case False
  then have "n = 2 ^ 53 \<or> n = - (2 ^ 53)" using assms by linarith
  then have "\<exists>m. \<bar>m\<bar> < 2 ^ 53 \<and> (of_int n :: real) = of_int m * 2 powi 1"
  proof
    assume "n = 2 ^ 53" then show ?thesis by (intro exI [of _ "2 ^ 52"]) simp
  next
    assume "n = - (2 ^ 53)" then show ?thesis by (intro exI [of _ "- (2 ^ 52)"]) simp
  qed
  then obtain m where "\<bar>m\<bar> < 2 ^ 53 \<and> - 1074 \<le> (1::int) \<and> (1::int) \<le> 971 \<and> (of_int n :: real) = of_int m * 2 powi 1"
    by auto
  then show ?thesis unfolding isDouble_def by blast
qed

lemma toDouble_of_int:
  assumes "\<bar>n\<bar> \<le> 2 ^ 53"
  shows "toDouble (of_int n) = Fin (of_int n)"
  using toDouble_exact [OF isDouble_of_int [OF assms]] .

lemma toDouble_of_nat:
  assumes "n \<le> 2 ^ 53"
  shows "toDouble (real n) = Fin (real n)"
  using toDouble_of_int [of "int n"] assms by simp

lemma toDouble_numeral:
  assumes "(numeral k :: int) \<le> 2 ^ 53"
  shows "toDouble (numeral k) = Fin (numeral k)"
  using toDouble_of_int [of "numeral k"] assms by simp

lemma toDouble_neg_numeral:
  assumes "(numeral k :: int) \<le> 2 ^ 53"
  shows "toDouble (- numeral k) = Fin (- numeral k)"
  using toDouble_of_int [of "- numeral k"] assms by simp

lemma toDouble_1: "toDouble 1 = Fin 1"
  using toDouble_of_int [of 1] by simp

subsection \<open>The double nearest to a real\<close>

lemma roundHalfEven_nearest:
  assumes "\<bar>y - of_int k\<bar> \<le> 1 / 2" and "\<bar>y - of_int k\<bar> = 1 / 2 \<longrightarrow> even k"
  shows "roundHalfEven y = k"
proof (cases "\<bar>y - of_int k\<bar> < 1 / 2")
  case True
  then show ?thesis by (rule roundHalfEven_eqI)
next
  case False
  then have h: "\<bar>y - of_int k\<bar> = 1 / 2" and ev: "even k" using assms by simp_all
  then have "y = of_int k + 1 / 2 \<or> y = of_int k - 1 / 2" by linarith
  then show ?thesis
  proof
    assume y: "y = of_int k + 1 / 2"
    then have "\<lfloor>y\<rfloor> = k" by linarith
    then show ?thesis using y ev by (simp add: roundHalfEven_def Let_def)
  next
    assume y: "y = of_int k - 1 / 2"
    then have f: "\<lfloor>y\<rfloor> = k - 1" by linarith
    have "odd (k - 1)" using ev by simp
    then show ?thesis using y f by (simp add: roundHalfEven_def Let_def)
  qed
qed

lemma toDouble_nearest_pos:
  assumes m: "2 ^ 52 \<le> m" "m < 2 ^ 53" and e: "- 1074 \<le> e" "e \<le> 971"
    and near: "\<bar>x - of_int m * 2 powi e\<bar> \<le> 2 powi e / 2"
    and tie: "\<bar>x - of_int m * 2 powi e\<bar> = 2 powi e / 2 \<longrightarrow> even m"
    and side: "2 ^ 52 < m \<or> of_int m * 2 powi e \<le> x"
  shows "toDouble x = Fin (of_int m * 2 powi e)"
proof -
  have g: "(0::real) < 2 powi e" by simp
  define y where "y = x / 2 powi e"
  have xy: "x = y * 2 powi e" using g by (simp add: y_def)
  have ab: "\<bar>x - of_int m * 2 powi e\<bar> = \<bar>y - of_int m\<bar> * 2 powi e"
    unfolding xy by (simp add: abs_mult left_diff_distrib [symmetric])
  have "\<bar>y - of_int m\<bar> * 2 powi e \<le> (1 / 2) * 2 powi e" using near ab by simp
  then have ym: "\<bar>y - of_int m\<bar> \<le> 1 / 2" using g by (simp only: mult_le_cancel_right_pos)
  have yt: "\<bar>y - of_int m\<bar> = 1 / 2 \<longrightarrow> even m"
  proof
    assume "\<bar>y - of_int m\<bar> = 1 / 2"
    then have "\<bar>x - of_int m * 2 powi e\<bar> = 2 powi e / 2" using ab by simp
    then show "even m" using tie by simp
  qed
  have "(of_int (2 ^ 52) :: real) \<le> of_int m" using m(1) by (simp only: of_int_le_iff)
  then have m1: "(2 ^ 52 :: real) \<le> of_int m" by simp
  have "m \<le> 2 ^ 53 - 1" using m(2) by simp
  then have "(of_int m :: real) \<le> of_int (2 ^ 53 - 1)" by (simp only: of_int_le_iff)
  then have m2: "(of_int m :: real) \<le> 2 ^ 53 - 1" by simp
  have lo: "2 ^ 52 \<le> y"
  proof -
    from side show ?thesis
    proof
      assume "2 ^ 52 < m"
      then have "2 ^ 52 + 1 \<le> m" by simp
      then have "(of_int (2 ^ 52 + 1) :: real) \<le> of_int m" by (simp only: of_int_le_iff)
      then have "(2 ^ 52 + 1 :: real) \<le> of_int m" by simp
      then show ?thesis using ym by linarith
    next
      assume "of_int m * 2 powi e \<le> x"
      then have "of_int m \<le> y" using g by (simp add: y_def field_simps)
      then show ?thesis using m1 by linarith
    qed
  qed
  have hi: "y < 2 ^ 53 - 1 / 2"
  proof (cases "m = 2 ^ 53 - 1")
    case True
    then have "odd m" by simp
    then have "\<bar>y - of_int m\<bar> < 1 / 2" using ym yt by linarith
    then show ?thesis using m2 by linarith
  next
    case False
    then have "m \<le> 2 ^ 53 - 2" using m(2) by simp
    then have "(of_int m :: real) \<le> of_int (2 ^ 53 - 2)" by (simp only: of_int_le_iff)
    then have "(of_int m :: real) \<le> 2 ^ 53 - 2" by simp
    then show ?thesis using ym by linarith
  qed
  have "2 ^ 52 * 2 powi e \<le> x" unfolding xy using lo g by (simp only: mult_le_cancel_right_pos)
  moreover have "(2 ^ 52 :: real) * 2 powi e = 2 powi (e + 52)" by (simp add: power_int_add)
  ultimately have x1: "2 powi (e + 52) \<le> x" by simp
  have x2': "x < (2 ^ 53 - 1 / 2) * 2 powi e"
    unfolding xy using hi g by (simp only: mult_less_cancel_right_pos)
  have x2: "x < 2 powi (e + 52 + 1)"
  proof -
    note x2'
    also have "(2 ^ 53 - 1 / 2) * 2 powi e < (2 ^ 53 :: real) * 2 powi e"
      using g by (simp only: mult_less_cancel_right_pos)
    also have "(2 ^ 53 :: real) * 2 powi e = 2 powi (e + 52 + 1)" by (simp add: power_int_add)
    finally show ?thesis .
  qed
  have pos: "0 < x" using x1 by (smt (verit) zero_less_power_int)
  have "\<lfloor>log 2 x\<rfloor> = e + 52" using x1 x2 by (rule floor_log_eqI)
  then have u: "ulpExponent x = e" using pos e(1) by (simp add: ulpExponent_def)
  have "roundHalfEven y = m" using ym yt by (rule roundHalfEven_nearest)
  then have r: "roundFinite x = of_int m * 2 powi e" by (simp add: roundFinite_def u y_def)
  have "(2::real) powi e \<le> 2 powi 971" using e(2) by (intro power_int_increasing) simp_all
  then have "(2 ^ 53 - 1 / 2) * 2 powi e \<le> (2 ^ 53 - 1 / 2) * (2 ^ 971 :: real)"
    by (intro mult_left_mono) simp_all
  also have "\<dots> = overflowThreshold" by (simp add: overflowThreshold_def)
  finally have "x < overflowThreshold" using x2' by simp
  then show ?thesis using pos r by (simp add: toDouble_def)
qed

lemma toDouble_minus:
  "toDouble (- x) = (case toDouble x of Fin a \<Rightarrow> Fin (- a) | NaN \<Rightarrow> NaN | PosInf \<Rightarrow> NegInf | NegInf \<Rightarrow> PosInf)"
proof -
  have "0 < overflowThreshold" by (simp add: overflowThreshold_def)
  then show ?thesis by (auto simp: toDouble_def roundFinite_minus)
qed

section \<open>Properties of strings\<close>

lemma trim_decompose: "\<exists>w. dropWhile isWhiteSpace s = trim s @ w"
proof -
  let ?u = "dropWhile isWhiteSpace s"
  have "rev ?u = takeWhile isWhiteSpace (rev ?u) @ dropWhile isWhiteSpace (rev ?u)"
    by simp
  then have "rev (rev ?u) = rev (takeWhile isWhiteSpace (rev ?u) @ dropWhile isWhiteSpace (rev ?u))"
    by (rule arg_cong)
  then have eq: "?u = rev (dropWhile isWhiteSpace (rev ?u)) @ rev (takeWhile isWhiteSpace (rev ?u))"
    by (simp only: rev_rev_ident rev_append)
  show ?thesis unfolding trim_def by (rule exI) (rule eq)
qed

lemma trim_hd: "trim s \<noteq> [] \<Longrightarrow> \<not> isWhiteSpace (hd (trim s))"
proof -
  assume ne: "trim s \<noteq> []"
  obtain w where w: "dropWhile isWhiteSpace s = trim s @ w"
    using trim_decompose by blast
  then have "dropWhile isWhiteSpace s \<noteq> []" using ne by simp
  then have "\<not> isWhiteSpace (hd (dropWhile isWhiteSpace s))" by (rule hd_dropWhile)
  moreover have "hd (dropWhile isWhiteSpace s) = hd (trim s)"
    by (simp only: w hd_append2 [OF ne])
  ultimately show ?thesis by simp
qed

lemma trim_last: "trim s \<noteq> [] \<Longrightarrow> \<not> isWhiteSpace (last (trim s))"
proof -
  assume ne: "trim s \<noteq> []"
  define d where "d = dropWhile isWhiteSpace (rev (dropWhile isWhiteSpace s))"
  have t: "trim s = rev d" by (simp add: trim_def d_def)
  have "d \<noteq> []" using ne t by simp
  then have "\<not> isWhiteSpace (hd d)" unfolding d_def by (rule hd_dropWhile)
  then show ?thesis by (simp add: t last_rev)
qed

lemma trim_fixed:
  assumes "s = [] \<or> (\<not> isWhiteSpace (hd s) \<and> \<not> isWhiteSpace (last s))"
  shows "trim s = s"
proof -
  have 1: "dropWhile isWhiteSpace s = s"
    using assms unfolding dropWhile_eq_self_iff by blast
  have 2: "dropWhile isWhiteSpace (rev s) = rev s"
    using assms unfolding dropWhile_eq_self_iff hd_rev by auto
  show ?thesis by (simp add: trim_def 1 2)
qed

lemma trim_idem: "trim (trim s) = trim s"
proof (rule trim_fixed)
  show "trim s = [] \<or> (\<not> isWhiteSpace (hd (trim s)) \<and> \<not> isWhiteSpace (last (trim s)))"
    using trim_hd [of s] trim_last [of s] by blast
qed

section \<open>Properties of the containers\<close>

lemma set_distinctFirst: "set (distinctFirst xs) = set xs"
  by (induction xs rule: distinctFirst.induct) auto

lemma distinct_distinctFirst: "distinct (distinctFirst xs)"
  by (induction xs rule: distinctFirst.induct) (auto simp: set_distinctFirst)

lemma length_distinctFirst: "length (distinctFirst xs) = card (set xs)"
  using distinct_card [OF distinct_distinctFirst, of xs] by (simp add: set_distinctFirst)

lemma distinctFirst_filter: "distinctFirst (filter P xs) = filter P (distinctFirst xs)"
proof (induction xs rule: distinctFirst.induct)
  case 1
  show ?case by simp
next
  case (2 x xs)
  have swap: "filter P (filter (\<lambda>y. y \<noteq> x) xs) = filter (\<lambda>y. y \<noteq> x) (filter P xs)"
    by (simp add: conj_commute)
  show ?case
  proof (cases "P x")
    case True
    have "distinctFirst (filter (\<lambda>y. y \<noteq> x) (filter P xs)) =
          filter P (distinctFirst (filter (\<lambda>y. y \<noteq> x) xs))"
      by (simp only: swap [symmetric] "2.IH")
    with True show ?thesis by (simp del: filter_filter)
  next
    case False
    then have "filter P xs = filter P (filter (\<lambda>y. y \<noteq> x) xs)"
      by (auto intro: filter_cong)
    then have "distinctFirst (filter P xs) = filter P (distinctFirst (filter (\<lambda>y. y \<noteq> x) xs))"
      by (simp only: "2.IH")
    with False show ?thesis by (simp del: filter_filter)
  qed
qed

lemma distinctFirst_append:
  "distinctFirst (xs @ ys) = distinctFirst xs @ filter (\<lambda>y. y \<notin> set xs) (distinctFirst ys)"
proof (induction xs arbitrary: ys rule: distinctFirst.induct)
  case 1
  show ?case by simp
next
  case (2 x xs)
  have "distinctFirst (filter (\<lambda>y. y \<noteq> x) xs @ filter (\<lambda>y. y \<noteq> x) ys) =
        distinctFirst (filter (\<lambda>y. y \<noteq> x) xs) @
        filter (\<lambda>y. y \<notin> set (filter (\<lambda>y. y \<noteq> x) xs)) (distinctFirst (filter (\<lambda>y. y \<noteq> x) ys))"
    by (rule "2.IH")
  then show ?case
    by (auto simp: distinctFirst_filter intro!: filter_cong)
qed

lemma mapKeys_Nil: "mapKeys [] = []"
  by (simp add: mapKeys_def)

lemma mapGet_Nil: "mapGet [] k = None"
  by (simp add: mapGet_def)

lemma mapKeys_mapSet:
  "mapKeys (mapSet m k v) = (if k \<in> set (mapKeys m) then mapKeys m else mapKeys m @ [k])"
  by (induction m) (force simp: mapKeys_def)+

lemma mapGet_mapSet: "mapGet (mapSet m k v) k' = (if k' = k then Some v else mapGet m k')"
  by (induction m) (auto simp: mapGet_def)

lemma mapKeys_foldl:
  "mapKeys (foldl (\<lambda>m r. mapSet m (key r) (g m r)) m rs) =
     mapKeys m @ distinctFirst (filter (\<lambda>k. k \<notin> set (mapKeys m)) (map key rs))"
proof (induction rs arbitrary: m)
  case Nil
  show ?case by simp
next
  case (Cons r rs)
  show ?case
    by (simp add: Cons.IH mapKeys_mapSet conj_commute)
qed

lemma mapGet_foldl_set:
  "mapGet (foldl (\<lambda>m r. mapSet m (key r) r) m rs) k =
     (case filter (\<lambda>r. key r = k) rs of [] \<Rightarrow> mapGet m k | x # xs \<Rightarrow> Some (last (x # xs)))"
proof (induction rs arbitrary: m)
  case Nil
  show ?case by simp
next
  case (Cons r rs)
  show ?case
    by (auto simp: Cons.IH mapGet_mapSet split: list.splits)
qed


lemma set_sortDesc: "set (sortDesc f xs) = set xs"
  by (simp add: sortDesc_def)

lemma length_sortDesc: "length (sortDesc f xs) = length xs"
  by (simp add: sortDesc_def)

lemma sortDesc_Nil_iff: "sortDesc f xs = [] \<longleftrightarrow> xs = []"
  using length_sortDesc [of f xs] by (metis length_0_conv)

section \<open>Properties of the period comparator\<close>

lemma mapKeys_keyMap: "mapKeys (keyMap kj rs) = distinctFirst (map (keyFn kj) rs)"
  using mapKeys_foldl [of "keyFn kj" "\<lambda>m r. r" "[]" rs]
  by (simp add: keyMap_def mapKeys_Nil)

lemma mapGet_keyMap:
  "mapGet (keyMap kj rs) k =
     (case filter (\<lambda>r. keyFn kj r = k) rs of [] \<Rightarrow> None | x # xs \<Rightarrow> Some (last (x # xs)))"
  using mapGet_foldl_set [of "keyFn kj" "[]" rs k]
  by (simp add: keyMap_def mapGet_Nil cong: list.case_cong)

lemma mapGet_keyMap_twice: "mapGet (keyMap kj (rs @ rs)) k = mapGet (keyMap kj rs) k"
  by (simp add: mapGet_keyMap split: list.splits)

lemma mapKeys_keyMap_twice: "mapKeys (keyMap kj (rs @ rs)) = mapKeys (keyMap kj rs)"
  by (simp add: mapKeys_keyMap distinctFirst_append set_distinctFirst)

lemma joinRow_revenue:
  "revenueA (joinRow mA mB k) = side revenue (mapGet mA k)"
  "revenueB (joinRow mA mB k) = side revenue (mapGet mB k)"
  "deltaRevenue (joinRow mA mB k) = side revenue (mapGet mB k) - side revenue (mapGet mA k)"
  by (simp_all add: joinRow_def Let_def)

lemma joinRow_open:
  "openA (joinRow mA mB k) = side openAmount (mapGet mA k)"
  "openB (joinRow mA mB k) = side openAmount (mapGet mB k)"
  "deltaOpen (joinRow mA mB k) = side openAmount (mapGet mB k) - side openAmount (mapGet mA k)"
  by (simp_all add: joinRow_def Let_def)

lemma joinRow_ratio:
  "ratioA (joinRow mA mB k) = side ratio (mapGet mA k)"
  "ratioB (joinRow mA mB k) = side ratio (mapGet mB k)"
  "deltaRatio (joinRow mA mB k) = side ratio (mapGet mB k) - side ratio (mapGet mA k)"
  by (simp_all add: joinRow_def Let_def)

lemma compareRows_selected:
  "truthy mA \<Longrightarrow> truthy mB \<Longrightarrow>
   compareRows base mA mB kj =
     sortDesc deltaRevenue
       (map (joinRow (keyMap kj (periodRows base mA)) (keyMap kj (periodRows base mB)))
            (distinctFirst (mapKeys (keyMap kj (periodRows base mA))
                            @ mapKeys (keyMap kj (periodRows base mB)))))"
  by (simp add: compareRows_def Let_def)

lemma compareRows_unselected:
  "\<not> truthy mA \<or> \<not> truthy mB \<Longrightarrow> compareRows base mA mB kj = []"
  by (auto simp: compareRows_def)

lemma compareRows_Nil_iff:
  assumes "truthy mA" and "truthy mB"
  shows "compareRows base mA mB kj = [] \<longleftrightarrow>
           mA \<notin> set (map month base) \<and> mB \<notin> set (map month base)"
proof -
  let ?A = "periodRows base mA"
  let ?B = "periodRows base mB"
  have "compareRows base mA mB kj = [] \<longleftrightarrow>
        distinctFirst (mapKeys (keyMap kj ?A) @ mapKeys (keyMap kj ?B)) = []"
    using assms by (simp add: compareRows_selected sortDesc_Nil_iff)
  also have "\<dots> \<longleftrightarrow> set (mapKeys (keyMap kj ?A) @ mapKeys (keyMap kj ?B)) = {}"
    using set_distinctFirst [of "mapKeys (keyMap kj ?A) @ mapKeys (keyMap kj ?B)"]
    by (metis set_empty)
  also have "\<dots> \<longleftrightarrow> ?A = [] \<and> ?B = []"
    by (auto simp: mapKeys_keyMap set_distinctFirst)
  also have "\<dots> \<longleftrightarrow> mA \<notin> set (map month base) \<and> mB \<notin> set (map month base)"
    by (auto simp: periodRows_def filter_empty_conv)
  finally show ?thesis .
qed

lemma keyMap_Nil: "keyMap kj [] = []"
  by (simp add: keyMap_def)

lemma periodRows_Nil_iff: "periodRows base m = [] \<longleftrightarrow> (\<forall>r \<in> set base. month r \<noteq> m)"
  by (auto simp: periodRows_def filter_empty_conv)

lemma compareRows_rows:
  assumes "truthy mA" and "truthy mB" and "c \<in> set (compareRows base mA mB kj)"
  shows "\<exists>k. c = joinRow (keyMap kj (periodRows base mA)) (keyMap kj (periodRows base mB)) k"
  using assms by (auto simp: compareRows_selected set_sortDesc)

lemma compareRows_length:
  assumes "truthy mA" and "truthy mB"
  shows "length (compareRows base mA mB kj) =
           card (keyFn kj ` set (periodRows base mA) \<union> keyFn kj ` set (periodRows base mB))"
  using assms
  by (simp add: compareRows_selected length_sortDesc length_distinctFirst mapKeys_keyMap
        set_distinctFirst)

lemma compareRows_rowless_A:
  assumes "truthy mA" and "truthy mB" and "periodRows base mA = []"
  shows "length (compareRows base mA mB kj) = card (keyFn kj ` set (periodRows base mB))"
    and "\<forall>c \<in> set (compareRows base mA mB kj).
           openA c = 0 \<and> revenueA c = 0 \<and> ratioA c = 0
           \<and> deltaOpen c = openB c \<and> deltaRevenue c = revenueB c \<and> deltaRatio c = ratioB c"
proof -
  show "length (compareRows base mA mB kj) = card (keyFn kj ` set (periodRows base mB))"
    using compareRows_length [OF assms(1,2), of base kj] assms(3) by simp
  show "\<forall>c \<in> set (compareRows base mA mB kj).
           openA c = 0 \<and> revenueA c = 0 \<and> ratioA c = 0
           \<and> deltaOpen c = openB c \<and> deltaRevenue c = revenueB c \<and> deltaRatio c = ratioB c"
  proof
    fix c
    assume "c \<in> set (compareRows base mA mB kj)"
    then obtain k where "c = joinRow (keyMap kj []) (keyMap kj (periodRows base mB)) k"
      using compareRows_rows [OF assms(1,2)] assms(3) by metis
    then show "openA c = 0 \<and> revenueA c = 0 \<and> ratioA c = 0
           \<and> deltaOpen c = openB c \<and> deltaRevenue c = revenueB c \<and> deltaRatio c = ratioB c"
      by (simp add: joinRow_open joinRow_revenue joinRow_ratio keyMap_Nil mapGet_Nil side_def)
  qed
qed

lemma compareRows_rowless_B:
  assumes "truthy mA" and "truthy mB" and "periodRows base mB = []"
  shows "length (compareRows base mA mB kj) = card (keyFn kj ` set (periodRows base mA))"
    and "\<forall>c \<in> set (compareRows base mA mB kj).
           openB c = 0 \<and> revenueB c = 0 \<and> ratioB c = 0
           \<and> deltaOpen c = - openA c \<and> deltaRevenue c = - revenueA c \<and> deltaRatio c = - ratioA c"
proof -
  show "length (compareRows base mA mB kj) = card (keyFn kj ` set (periodRows base mA))"
    using compareRows_length [OF assms(1,2), of base kj] assms(3) by simp
  show "\<forall>c \<in> set (compareRows base mA mB kj).
           openB c = 0 \<and> revenueB c = 0 \<and> ratioB c = 0
           \<and> deltaOpen c = - openA c \<and> deltaRevenue c = - revenueA c \<and> deltaRatio c = - ratioA c"
  proof
    fix c
    assume "c \<in> set (compareRows base mA mB kj)"
    then obtain k where "c = joinRow (keyMap kj (periodRows base mA)) (keyMap kj []) k"
      using compareRows_rows [OF assms(1,2)] assms(3) by metis
    then show "openB c = 0 \<and> revenueB c = 0 \<and> ratioB c = 0
           \<and> deltaOpen c = - openA c \<and> deltaRevenue c = - revenueA c \<and> deltaRatio c = - ratioA c"
      by (simp add: joinRow_open joinRow_revenue joinRow_ratio keyMap_Nil mapGet_Nil side_def)
  qed
qed

lemma baseRowsForCompare_set:
  "set (baseRowsForCompare toks rs) = {r \<in> set rs. passExclude toks r}"
  by (simp add: baseRowsForCompare_def)

lemma baseRowsForCompare_period:
  "set (periodRows (baseRowsForCompare toks rs) m) = {r \<in> set rs. passExclude toks r \<and> month r = m}"
  by (auto simp: periodRows_def baseRowsForCompare_def)

lemma baseRowsForCompare_no_tokens: "baseRowsForCompare [] rs = rs"
  by (simp add: baseRowsForCompare_def passExclude_def)

lemma seed_months:
  "map month seed =
     [Some (ascii ''2025-07''), Some (ascii ''2025-07''), Some (ascii ''2025-08''),
      Some (ascii ''2025-08''), Some (ascii ''2025-08'')]"
  by (simp add: seed_def)

text \<open>
  C1, as the spec states it, fails: a selected period without rows does not empty the
  comparison.  The seed data has no row of 2025-09, and comparing 2025-07 with 2025-09
  gives rows.
\<close>

theorem compareRows_missing_period_counterexample:
  "Some (ascii ''2025-09'') \<notin> set (map month seed)
   \<and> compareRows seed (Some (ascii ''2025-07'')) (Some (ascii ''2025-09'')) AgentAndMerchant \<noteq> []"
proof -
  have a: "truthy (Some (ascii ''2025-07''))" and b: "truthy (Some (ascii ''2025-09''))"
    by (simp_all add: truthy_def ascii_def)
  show ?thesis
    by (simp add: compareRows_Nil_iff [OF a b] seed_months) (simp add: ascii_def)
qed

text \<open>
  C1, amended.  The comparator works on the rows of the dataset that pass the agent
  exclusion (all rows in the earlier variant, which is the case of no token).  The
  comparison is empty when a period is not selected (the selector is \<open>undefined\<close> or
  the empty string).  With both periods selected it is empty exactly when neither
  period has a row among those rows.  A selected period without such a row does not empty
  the comparison: there is one comparison row for each key of the other period, and in
  each of them the open amount, the revenue and the ratio of the rowless period are 0,
  so that each delta is the value of the other period, negated when the rowless
  period is B.
\<close>

theorem compareRows_empty:
  "(\<not> truthy mA \<or> \<not> truthy mB \<longrightarrow> compareRows (baseRowsForCompare toks rs) mA mB kj = [])
   \<and> (truthy mA \<and> truthy mB \<longrightarrow>
        (compareRows (baseRowsForCompare toks rs) mA mB kj = [] \<longleftrightarrow>
           (\<forall>r \<in> set rs. passExclude toks r \<longrightarrow> month r \<noteq> mA \<and> month r \<noteq> mB))
        \<and> ((\<forall>r \<in> set rs. passExclude toks r \<longrightarrow> month r \<noteq> mA) \<longrightarrow>
             length (compareRows (baseRowsForCompare toks rs) mA mB kj) =
               card (keyFn kj ` {r \<in> set rs. passExclude toks r \<and> month r = mB})
             \<and> (\<forall>c \<in> set (compareRows (baseRowsForCompare toks rs) mA mB kj).
                  openA c = 0 \<and> revenueA c = 0 \<and> ratioA c = 0
                  \<and> deltaOpen c = openB c \<and> deltaRevenue c = revenueB c
                  \<and> deltaRatio c = ratioB c))
        \<and> ((\<forall>r \<in> set rs. passExclude toks r \<longrightarrow> month r \<noteq> mB) \<longrightarrow>
             length (compareRows (baseRowsForCompare toks rs) mA mB kj) =
               card (keyFn kj ` {r \<in> set rs. passExclude toks r \<and> month r = mA})
             \<and> (\<forall>c \<in> set (compareRows (baseRowsForCompare toks rs) mA mB kj).
                  openB c = 0 \<and> revenueB c = 0 \<and> ratioB c = 0
                  \<and> deltaOpen c = - openA c \<and> deltaRevenue c = - revenueA c
                  \<and> deltaRatio c = - ratioA c)))
   \<and> baseRowsForCompare [] rs = rs"
proof -
  define base where "base = baseRowsForCompare toks rs"
  have sb: "set base = {r \<in> set rs. passExclude toks r}"
    by (simp add: base_def baseRowsForCompare_set)
  have pr: "set (periodRows base m) = {r \<in> set rs. passExclude toks r \<and> month r = m}" for m
    by (simp add: base_def baseRowsForCompare_period)
  have pn: "periodRows base m = [] \<longleftrightarrow> (\<forall>r \<in> set rs. passExclude toks r \<longrightarrow> month r \<noteq> m)" for m
    by (auto simp: periodRows_Nil_iff sb)
  have u: "\<not> truthy mA \<or> \<not> truthy mB \<longrightarrow> compareRows base mA mB kj = []"
    using compareRows_unselected [of mA mB base kj] by blast
  have e: "truthy mA \<and> truthy mB \<longrightarrow>
        (compareRows base mA mB kj = [] \<longleftrightarrow>
           (\<forall>r \<in> set rs. passExclude toks r \<longrightarrow> month r \<noteq> mA \<and> month r \<noteq> mB))"
  proof
    assume t: "truthy mA \<and> truthy mB"
    then have "compareRows base mA mB kj = [] \<longleftrightarrow>
                 mA \<notin> set (map month base) \<and> mB \<notin> set (map month base)"
      by (intro compareRows_Nil_iff) simp_all
    also have "\<dots> \<longleftrightarrow> (\<forall>r \<in> set rs. passExclude toks r \<longrightarrow> month r \<noteq> mA \<and> month r \<noteq> mB)"
      by (auto simp: sb)
    finally show "compareRows base mA mB kj = [] \<longleftrightarrow>
           (\<forall>r \<in> set rs. passExclude toks r \<longrightarrow> month r \<noteq> mA \<and> month r \<noteq> mB)" .
  qed
  have a: "truthy mA \<and> truthy mB \<longrightarrow> (\<forall>r \<in> set rs. passExclude toks r \<longrightarrow> month r \<noteq> mA) \<longrightarrow>
             length (compareRows base mA mB kj) =
               card (keyFn kj ` {r \<in> set rs. passExclude toks r \<and> month r = mB})
             \<and> (\<forall>c \<in> set (compareRows base mA mB kj).
                  openA c = 0 \<and> revenueA c = 0 \<and> ratioA c = 0
                  \<and> deltaOpen c = openB c \<and> deltaRevenue c = revenueB c
                  \<and> deltaRatio c = ratioB c)"
  proof (intro impI)
    assume t: "truthy mA \<and> truthy mB" and n: "\<forall>r \<in> set rs. passExclude toks r \<longrightarrow> month r \<noteq> mA"
    have tA: "truthy mA" and tB: "truthy mB" using t by simp_all
    have p: "periodRows base mA = []" using n by (simp only: pn)
    show "length (compareRows base mA mB kj) =
               card (keyFn kj ` {r \<in> set rs. passExclude toks r \<and> month r = mB})
             \<and> (\<forall>c \<in> set (compareRows base mA mB kj).
                  openA c = 0 \<and> revenueA c = 0 \<and> ratioA c = 0
                  \<and> deltaOpen c = openB c \<and> deltaRevenue c = revenueB c
                  \<and> deltaRatio c = ratioB c)"
      using compareRows_rowless_A [OF tA tB p, of kj] by (simp only: pr)
  qed
  have b: "truthy mA \<and> truthy mB \<longrightarrow> (\<forall>r \<in> set rs. passExclude toks r \<longrightarrow> month r \<noteq> mB) \<longrightarrow>
             length (compareRows base mA mB kj) =
               card (keyFn kj ` {r \<in> set rs. passExclude toks r \<and> month r = mA})
             \<and> (\<forall>c \<in> set (compareRows base mA mB kj).
                  openB c = 0 \<and> revenueB c = 0 \<and> ratioB c = 0
                  \<and> deltaOpen c = - openA c \<and> deltaRevenue c = - revenueA c
                  \<and> deltaRatio c = - ratioA c)"
  proof (intro impI)
    assume t: "truthy mA \<and> truthy mB" and n: "\<forall>r \<in> set rs. passExclude toks r \<longrightarrow> month r \<noteq> mB"
    have tA: "truthy mA" and tB: "truthy mB" using t by simp_all
    have p: "periodRows base mB = []" using n by (simp only: pn)
    show "length (compareRows base mA mB kj) =
               card (keyFn kj ` {r \<in> set rs. passExclude toks r \<and> month r = mA})
             \<and> (\<forall>c \<in> set (compareRows base mA mB kj).
                  openB c = 0 \<and> revenueB c = 0 \<and> ratioB c = 0
                  \<and> deltaOpen c = - openA c \<and> deltaRevenue c = - revenueA c
                  \<and> deltaRatio c = - ratioA c)"
      using compareRows_rowless_B [OF tA tB p, of kj] by (simp only: pr)
  qed
  show ?thesis
    using u e a b baseRowsForCompare_no_tokens [of rs] unfolding base_def by blast
qed

lemma seed_excluded:
  "baseRowsForCompare [[0x91D1, 0x5091, 0x514B]] seed = drop 2 seed"
  by (simp add: baseRowsForCompare_def passExclude_def seed_def)

lemma seed_2025_07_keys:
  "keyFn MerchantOnly ` {r \<in> set seed. passExclude [] r \<and> month r = Some (ascii ''2025-07'')}
     = {[0x842C, 0x8C6A], [0x65B0, 0x5409, 0x661F]}"
proof -
  have "{r \<in> set seed. passExclude [] r \<and> month r = Some (ascii ''2025-07'')}
          = set (filter (\<lambda>r. passExclude [] r \<and> month r = Some (ascii ''2025-07'')) seed)"
    by simp
  also have "filter (\<lambda>r. passExclude [] r \<and> month r = Some (ascii ''2025-07'')) seed = take 2 seed"
    by (simp add: seed_def passExclude_def ascii_def)
  finally show ?thesis by (simp add: seed_def keyFn_def)
qed

theorem compareRows_empty_witness:
  "compareRows (baseRowsForCompare [] seed) None (Some (ascii ''2025-07'')) AgentAndMerchant = []
   \<and> compareRows (baseRowsForCompare [] seed) (Some []) (Some (ascii ''2025-07'')) MerchantOnly = []
   \<and> compareRows (baseRowsForCompare [] seed) (Some (ascii ''2025-10'')) (Some (ascii ''2025-09''))
       AgentAndMerchant = []
   \<and> compareRows (baseRowsForCompare [[0x91D1, 0x5091, 0x514B]] seed) (Some (ascii ''2025-07''))
       (Some (ascii ''2025-07'')) AgentAndMerchant = []
   \<and> length (compareRows (baseRowsForCompare [] seed) (Some (ascii ''2025-07''))
               (Some (ascii ''2025-09'')) MerchantOnly) = 2
   \<and> list_all (\<lambda>c. openB c = 0 \<and> revenueB c = 0 \<and> ratioB c = 0 \<and> deltaRevenue c = - revenueA c)
       (compareRows (baseRowsForCompare [] seed) (Some (ascii ''2025-07''))
          (Some (ascii ''2025-09'')) MerchantOnly)"
proof -
  have m: "\<forall>r \<in> set seed. month r \<noteq> Some (ascii ''2025-09'') \<and> month r \<noteq> Some (ascii ''2025-10'')"
    by (simp add: seed_def ascii_def)
  have x: "\<forall>r \<in> set seed. passExclude [[0x91D1, 0x5091, 0x514B]] r \<longrightarrow> month r \<noteq> Some (ascii ''2025-07'')"
    by (simp add: seed_def passExclude_def ascii_def)
  have f: "\<not> truthy None" "\<not> truthy (Some [])"
    and t7: "truthy (Some (ascii ''2025-07''))" and t9: "truthy (Some (ascii ''2025-09''))"
    and t10: "truthy (Some (ascii ''2025-10''))"
    by (simp_all add: truthy_def ascii_def)
  have m': "\<forall>r \<in> set seed. passExclude [] r \<longrightarrow>
              month r \<noteq> Some (ascii ''2025-10'') \<and> month r \<noteq> Some (ascii ''2025-09'')"
    using m by simp
  have x': "\<forall>r \<in> set seed. passExclude [[0x91D1, 0x5091, 0x514B]] r \<longrightarrow>
              month r \<noteq> Some (ascii ''2025-07'') \<and> month r \<noteq> Some (ascii ''2025-07'')"
    using x by simp
  have 1: "compareRows (baseRowsForCompare [] seed) None (Some (ascii ''2025-07'')) AgentAndMerchant = []"
    using compareRows_empty [of None "Some (ascii ''2025-07'')" "[]" seed AgentAndMerchant] f
    by blast
  have 2: "compareRows (baseRowsForCompare [] seed) (Some []) (Some (ascii ''2025-07'')) MerchantOnly = []"
    using compareRows_empty [of "Some []" "Some (ascii ''2025-07'')" "[]" seed MerchantOnly] f
    by blast
  have 3: "compareRows (baseRowsForCompare [] seed) (Some (ascii ''2025-10'')) (Some (ascii ''2025-09''))
       AgentAndMerchant = []"
    using compareRows_empty [of "Some (ascii ''2025-10'')" "Some (ascii ''2025-09'')" "[]" seed
            AgentAndMerchant] m' t10 t9
    by blast
  have 4: "compareRows (baseRowsForCompare [[0x91D1, 0x5091, 0x514B]] seed) (Some (ascii ''2025-07''))
       (Some (ascii ''2025-07'')) AgentAndMerchant = []"
    using compareRows_empty [of "Some (ascii ''2025-07'')" "Some (ascii ''2025-07'')"
            "[[0x91D1, 0x5091, 0x514B]]" seed AgentAndMerchant] x' t7
    by blast
  have t: "truthy (Some (ascii ''2025-07'')) \<and> truthy (Some (ascii ''2025-09''))"
    using t7 t9 by simp
  have n: "\<forall>r \<in> set seed. passExclude [] r \<longrightarrow> month r \<noteq> Some (ascii ''2025-09'')"
    using m by simp
  note c = compareRows_empty [of "Some (ascii ''2025-07'')" "Some (ascii ''2025-09'')" "[]" seed
            MerchantOnly]
  have 5: "length (compareRows (baseRowsForCompare [] seed) (Some (ascii ''2025-07''))
               (Some (ascii ''2025-09'')) MerchantOnly) = 2"
  proof -
    from c t n have "length (compareRows (baseRowsForCompare [] seed) (Some (ascii ''2025-07''))
               (Some (ascii ''2025-09'')) MerchantOnly) =
        card (keyFn MerchantOnly ` {r \<in> set seed. passExclude [] r \<and> month r = Some (ascii ''2025-07'')})"
      by blast
    then show ?thesis unfolding seed_2025_07_keys by simp
  qed
  have 6: "list_all (\<lambda>c. openB c = 0 \<and> revenueB c = 0 \<and> ratioB c = 0 \<and> deltaRevenue c = - revenueA c)
       (compareRows (baseRowsForCompare [] seed) (Some (ascii ''2025-07''))
          (Some (ascii ''2025-09'')) MerchantOnly)"
    unfolding list_all_iff using c t n by blast
  from 1 2 3 4 5 6 show ?thesis by blast
qed





text \<open>
  C10: within one period the key map keeps, for each key, the last row of that key:
  setting a key that is present overwrites the row, nothing is summed.  So each side of
  a comparison row shows the open amount, the revenue and the ratio of that last row,
  and a dataset in which every row occurs twice compares as the dataset itself.
\<close>

theorem keyMap_last_wins:
  "mapGet (keyMap kj rs) k =
     (case filter (\<lambda>r. keyFn kj r = k) rs of [] \<Rightarrow> None | x # xs \<Rightarrow> Some (last (x # xs)))
   \<and> revenueA (joinRow (keyMap kj rs) mapB k) =
       (case filter (\<lambda>r. keyFn kj r = k) rs of [] \<Rightarrow> 0 | x # xs \<Rightarrow> revenue (last (x # xs)))
   \<and> openA (joinRow (keyMap kj rs) mapB k) =
       (case filter (\<lambda>r. keyFn kj r = k) rs of [] \<Rightarrow> 0 | x # xs \<Rightarrow> openAmount (last (x # xs)))
   \<and> ratioA (joinRow (keyMap kj rs) mapB k) =
       (case filter (\<lambda>r. keyFn kj r = k) rs of [] \<Rightarrow> 0 | x # xs \<Rightarrow> ratio (last (x # xs)))
   \<and> revenueB (joinRow mapA (keyMap kj rs) k) =
       (case filter (\<lambda>r. keyFn kj r = k) rs of [] \<Rightarrow> 0 | x # xs \<Rightarrow> revenue (last (x # xs)))
   \<and> openB (joinRow mapA (keyMap kj rs) k) =
       (case filter (\<lambda>r. keyFn kj r = k) rs of [] \<Rightarrow> 0 | x # xs \<Rightarrow> openAmount (last (x # xs)))
   \<and> ratioB (joinRow mapA (keyMap kj rs) k) =
       (case filter (\<lambda>r. keyFn kj r = k) rs of [] \<Rightarrow> 0 | x # xs \<Rightarrow> ratio (last (x # xs)))
   \<and> compareRows (base @ base) mA mB kj = compareRows base mA mB kj"
proof -
  have j: "joinRow (keyMap kj (A @ A)) (keyMap kj (B @ B)) = joinRow (keyMap kj A) (keyMap kj B)" for A B
    by (rule ext) (simp add: joinRow_def mapGet_keyMap_twice)
  have p: "periodRows (base @ base) m = periodRows base m @ periodRows base m" for m
    by (simp add: periodRows_def)
  have "compareRows (base @ base) mA mB kj = compareRows base mA mB kj"
    by (simp add: compareRows_def mapKeys_keyMap_twice Let_def j p)
  then show ?thesis
    by (simp add: joinRow_revenue joinRow_open joinRow_ratio side_def mapGet_keyMap
          split: list.splits)
qed

lemma seed_twice_key:
  "filter (\<lambda>r. keyFn MerchantOnly r = [0x842C, 0x8C6A]) (seed @ seed) = [hd seed, hd seed]"
  by (simp add: seed_def keyFn_def)

theorem keyMap_last_wins_witness:
  "mapGet (keyMap MerchantOnly (seed @ seed)) [0x842C, 0x8C6A] = Some (hd seed)
   \<and> revenueA (joinRow (keyMap MerchantOnly (seed @ seed)) [] [0x842C, 0x8C6A]) = 300000
   \<and> compareRows (seed @ seed) (Some (ascii ''2025-07'')) (Some (ascii ''2025-08'')) MerchantOnly
       = compareRows seed (Some (ascii ''2025-07'')) (Some (ascii ''2025-08'')) MerchantOnly"
proof -
  note t = keyMap_last_wins [of MerchantOnly "seed @ seed" "[0x842C, 0x8C6A]" "[]" "[]" seed
          "Some (ascii ''2025-07'')" "Some (ascii ''2025-08'')"]
  have r: "revenue (hd seed) = 300000" by (simp add: seed_def)
  from t have 1: "mapGet (keyMap MerchantOnly (seed @ seed)) [0x842C, 0x8C6A] = Some (hd seed)"
    unfolding seed_twice_key by simp
  from t have 2: "revenueA (joinRow (keyMap MerchantOnly (seed @ seed)) [] [0x842C, 0x8C6A]) = 300000"
    unfolding seed_twice_key by (simp add: r)
  from t have 3: "compareRows (seed @ seed) (Some (ascii ''2025-07'')) (Some (ascii ''2025-08'')) MerchantOnly
       = compareRows seed (Some (ascii ''2025-07'')) (Some (ascii ''2025-08'')) MerchantOnly"
    by blast
  from 1 2 3 show ?thesis by blast
qed


section \<open>Properties of the ingestor and the merger\<close>

lemma toRow_fields:
  "agent (toRow year r bm) = trim (case coalesce [r kAgent, r kAgentShort, r (ascii ''Agent'')] of None \<Rightarrow> [] | Some s \<Rightarrow> s)"
  "merchant (toRow year r bm) = trim (case coalesce [r kMerchant, r (ascii ''Store'')] of None \<Rightarrow> [] | Some s \<Rightarrow> s)"
  "openAmount (toRow year r bm) = num (cell (coalesce [r kOpen, r kOpenShort, r (ascii ''Open'')]))"
  "revenue (toRow year r bm) = num (cell (coalesce [r kRevenue, r (ascii ''Revenue''), r (ascii ''Sales'')]))"
  by (simp_all add: toRow_def Let_def)

lemma toRow_trimmed:
  "trim (agent (toRow year r bm)) = agent (toRow year r bm)"
  "trim (merchant (toRow year r bm)) = merchant (toRow year r bm)"
  by (simp_all add: toRow_fields trim_idem)

lemma ingested_identified:
  "x \<in> set (filter hasIdentity (map (\<lambda>r. toRow year r bm) records)) \<Longrightarrow> identified x"
  by (auto simp: identified_def hasIdentity_def toRow_trimmed)

lemma parseOne_identified: "x \<in> set (parseOne year bm records) \<Longrightarrow> identified x"
  unfolding parseOne_def by (rule ingested_identified)

lemma loadFromCsvUrl_identified: "x \<in> set (loadFromCsvUrl year records bm) \<Longrightarrow> identified x"
  unfolding loadFromCsvUrl_def by (rule ingested_identified)

lemma loadFromJsonUrl_identified: "x \<in> set (loadFromJsonUrl year arr bm) \<Longrightarrow> identified x"
  unfolding loadFromJsonUrl_def by (rule ingested_identified)

lemma fillMonth_identified: "identified (fillMonth year bm r) = identified r"
  by (simp add: identified_def fillMonth_def)

lemma seed_identified: "x \<in> set seed \<Longrightarrow> identified x"
  unfolding seed_def by (auto simp: identified_def trim_def isWhiteSpace_def)

lemma onFiles_identified:
  assumes "\<forall>x \<in> set (rows st). identified x"
  shows "\<forall>x \<in> set (rows (onFiles year st files)). identified x"
proof (cases "files = []")
  case True
  then show ?thesis using assms by (simp add: onFiles_def)
next
  case False
  have "\<forall>x \<in> set (map (fillMonth year (batchMonth st))
                    (concat (map (\<lambda>f. parseOne year (batchMonth st) (fileRecords f)) files))).
          identified x"
    by (auto simp: fillMonth_identified dest: parseOne_identified)
  then show ?thesis
    using False assms by (auto simp: onFiles_def Let_def mergeRows_def)
qed

text \<open>
  C9: every row of the working dataset has an agent and a merchant that are not empty
  and that trimming leaves unchanged.  The three ingestion paths keep only such rows,
  the seed rows are such rows, and every way the component writes the dataset (an
  upload in either mode, a load from the data URL, the clear button) keeps the
  invariant.
\<close>

theorem dataset_rows_identified:
  assumes "reachable year st" and "r \<in> set (rows st)"
  shows "agent r \<noteq> [] \<and> merchant r \<noteq> []
         \<and> trim (agent r) = agent r \<and> trim (merchant r) = merchant r"
proof -
  have "\<forall>x \<in> set (rows st). identified x"
    using assms(1)
  proof (induction rule: reachable.induct)
    case mount
    then show ?case by (simp add: initialState_def seed_identified)
  next
    case (upload st files)
    from upload.IH show ?case by (rule onFiles_identified)
  next
    case (csvUrl st records)
    then show ?case by (auto simp: onLoaded_def dest: loadFromCsvUrl_identified)
  next
    case (jsonUrl st arr)
    then show ?case by (auto simp: onLoaded_def dest: loadFromJsonUrl_identified)
  next
    case (clear st)
    then show ?case by (simp add: clearData_def)
  qed simp_all
  then show ?thesis using assms(2) by (simp add: identified_def)
qed


lemma scenarioRecord1_cells:
  "scenarioRecord1 kAgent = Some (ascii ''X'')"
  "scenarioRecord1 kMerchant = Some (ascii ''M1'')"
  "scenarioRecord1 kOpen = Some (ascii ''1,200,000'')"
  "scenarioRecord1 kRevenue = Some (ascii ''300000'')"
  "ratioSource scenarioRecord1 = None"
  by (simp_all add: scenarioRecord1_def ratioSource_def kAgent_def kAgentShort_def kMerchant_def
        kOpen_def kRevenue_def kRatio_def kRatioPercent_def ascii_def)

lemma scenarioRecord2_cells:
  "scenarioRecord2 kAgent = Some (ascii ''X'')"
  "scenarioRecord2 kMerchant = Some (ascii ''M2'')"
  "scenarioRecord2 kOpen = Some (ascii ''900000'')"
  "scenarioRecord2 kRevenue = Some (ascii ''210000'')"
  "ratioSource scenarioRecord2 = None"
  by (simp_all add: scenarioRecord2_def ratioSource_def kAgent_def kAgentShort_def kMerchant_def
        kOpen_def kRevenue_def kRatio_def kRatioPercent_def ascii_def)

lemma trim_X: "trim (ascii ''X'') = ascii ''X''" "trim (ascii ''M1'') = ascii ''M1''"
  "trim (ascii ''M2'') = ascii ''M2''"
  by (simp_all add: trim_def ascii_def isWhiteSpace_def)

lemma scenario_identity:
  "hasIdentity (toRow year scenarioRecord1 bm)" "hasIdentity (toRow year scenarioRecord2 bm)"
  by (simp_all add: hasIdentity_def toRow_fields scenarioRecord1_cells scenarioRecord2_cells trim_X)
     (simp_all add: ascii_def)

lemma parseOne_scenario:
  "parseOne year bm (fileRecords scenarioUpload) =
     [toRow year scenarioRecord1 bm, toRow year scenarioRecord2 bm]"
  by (simp add: parseOne_def scenarioUpload_def scenario_identity)

theorem dataset_rows_identified_witness:
  "reachable 2026 (onFiles 2026 initialState [scenarioUpload])
   \<and> agent (last (rows (onFiles 2026 initialState [scenarioUpload]))) = ascii ''X''
   \<and> merchant (last (rows (onFiles 2026 initialState [scenarioUpload]))) \<noteq> []
   \<and> trim (agent (last (rows (onFiles 2026 initialState [scenarioUpload])))) = ascii ''X''"
proof -
  let ?st = "onFiles 2026 initialState [scenarioUpload]"
  have r: "reachable 2026 ?st"
    by (intro reachable.upload reachable.mount)
  have rs: "rows ?st = seed @ [fillMonth 2026 [] (toRow 2026 scenarioRecord1 []),
                              fillMonth 2026 [] (toRow 2026 scenarioRecord2 [])]"
    by (simp add: onFiles_def Let_def mergeRows_def initialState_def parseOne_scenario)
  have m: "last (rows ?st) \<in> set (rows ?st)"
    by (simp add: rs)
  have a: "agent (last (rows ?st)) = ascii ''X''"
    by (simp add: rs fillMonth_def toRow_fields scenarioRecord2_cells trim_X)
  show ?thesis
    using dataset_rows_identified [OF r m] r a by simp
qed

text \<open>
  C7: an upload of at least one file in append mode gives the existing rows followed
  by the incoming rows, in their order and with their month filled in, so the length is
  the sum of the two lengths; in replace mode it gives the incoming rows only.
\<close>

theorem onFiles_merge:
  assumes "files \<noteq> []"
  shows "(appendMode st \<longrightarrow>
            length (rows (onFiles year st files)) =
              length (rows st)
              + length (concat (map (\<lambda>f. parseOne year (batchMonth st) (fileRecords f)) files))
            \<and> take (length (rows st)) (rows (onFiles year st files)) = rows st
            \<and> drop (length (rows st)) (rows (onFiles year st files)) =
                map (fillMonth year (batchMonth st))
                  (concat (map (\<lambda>f. parseOne year (batchMonth st) (fileRecords f)) files)))
         \<and> (\<not> appendMode st \<longrightarrow>
              length (rows (onFiles year st files)) =
                length (concat (map (\<lambda>f. parseOne year (batchMonth st) (fileRecords f)) files))
              \<and> rows (onFiles year st files) =
                  map (fillMonth year (batchMonth st))
                    (concat (map (\<lambda>f. parseOne year (batchMonth st) (fileRecords f)) files)))"
  using assms by (simp add: onFiles_def mergeRows_def Let_def)

theorem onFiles_merge_witness:
  "length (rows (onFiles 2026 initialState [scenarioUpload])) = 7
   \<and> take 5 (rows (onFiles 2026 initialState [scenarioUpload])) = seed
   \<and> length (rows (onFiles 2026 (initialState\<lparr> appendMode := False \<rparr>) [scenarioUpload])) = 2"
proof -
  have ne: "[scenarioUpload] \<noteq> []" by simp
  have s: "rows initialState = seed" "appendMode initialState" "batchMonth initialState = []"
    by (simp_all add: initialState_def)
  have l: "length seed = 5" by (simp add: seed_def)
  show ?thesis
    using onFiles_merge [OF ne, of initialState 2026]
          onFiles_merge [OF ne, of "initialState\<lparr> appendMode := False \<rparr>" 2026]
    by (simp add: s l parseOne_scenario)
qed














section \<open>Properties of the exclusion filter\<close>

lemma str_includes_iff: "str_includes s t \<longleftrightarrow> (\<exists>p q. s = p @ t @ q)"
proof (induction s)
  case Nil
  show ?case by auto
next
  case (Cons c s)
  have "str_includes (c # s) t \<longleftrightarrow> prefix t (c # s) \<or> sublist t s"
    using Cons.IH by (simp add: sublist_def)
  also have "\<dots> \<longleftrightarrow> sublist t (c # s)"
    by (simp add: sublist_Cons_right)
  finally show ?case by (simp add: sublist_def)
qed

lemma passExclude_iff:
  "passExclude tokens r \<longleftrightarrow> \<not> (\<exists>tok \<in> set tokens. str_includes (agent r) tok)"
  by (auto simp: passExclude_def list_ex_iff)

lemma excludeStage_filter:
  "excludeStage tokens d = filter (\<lambda>r. \<not> (\<exists>tok \<in> set tokens. str_includes (agent r) tok)) d"
  by (cases tokens) (auto simp: excludeStage_def passExclude_iff intro: filter_cong)

lemma split_leading:
  "filter (\<lambda>p. p \<noteq> []) (splitSeparators [] (dropWhile isSeparator s)) =
   filter (\<lambda>p. p \<noteq> []) (splitSeparators [] s)"
  by (cases s) auto

lemma dropWhile_append_dropWhile:
  "dropWhile P (xs @ ys) = dropWhile P (dropWhile P xs @ ys)"
  by (induction xs) auto

lemma split_append_sep:
  "isSeparator c \<Longrightarrow>
   filter (\<lambda>p. p \<noteq> []) (splitSeparators acc (a @ c # b)) =
   filter (\<lambda>p. p \<noteq> []) (splitSeparators acc a) @ filter (\<lambda>p. p \<noteq> []) (splitSeparators [] b)"
proof (induction acc a rule: splitSeparators.induct)
  case (1 acc)
  then show ?case using split_leading [of b] by simp
next
  case (2 acc x s)
  show ?case
  proof (cases "isSeparator x")
    case True
    have "filter (\<lambda>p. p \<noteq> []) (splitSeparators [] (dropWhile isSeparator (s @ c # b))) =
          filter (\<lambda>p. p \<noteq> []) (splitSeparators [] (dropWhile isSeparator s @ c # b))"
      using split_leading [of "dropWhile isSeparator s @ c # b"]
      by (simp only: dropWhile_append_dropWhile [symmetric])
    also have "\<dots> = filter (\<lambda>p. p \<noteq> []) (splitSeparators [] (dropWhile isSeparator s))
                     @ filter (\<lambda>p. p \<noteq> []) (splitSeparators [] b)"
      using "2.IH"(1) [OF True "2.prems"] .
    finally show ?thesis using True by simp
  next
    case False
    then show ?thesis using "2.IH"(2) [OF False "2.prems"] by simp
  qed
qed

lemma split_no_sep:
  "\<forall>c \<in> set s. \<not> isSeparator c \<Longrightarrow> splitSeparators acc s = [rev acc @ s]"
  by (induction s arbitrary: acc) auto

lemma split_pieces_all:
  "list_all (\<lambda>c. \<not> isSeparator c) acc \<Longrightarrow>
   list_all (list_all (\<lambda>c. \<not> isSeparator c)) (splitSeparators acc s)"
proof (induction acc s rule: splitSeparators.induct)
  case (1 acc)
  then show ?case by (simp add: list_all_rev)
next
  case (2 acc c s)
  show ?case
  proof (cases "isSeparator c")
    case True
    have "list_all (list_all (\<lambda>c. \<not> isSeparator c)) (splitSeparators [] (dropWhile isSeparator s))"
      using "2.IH"(1) [OF True] by simp
    then show ?thesis using True "2.prems" by (simp add: list_all_rev)
  next
    case False
    have "list_all (list_all (\<lambda>c. \<not> isSeparator c)) (splitSeparators (c # acc) s)"
      using "2.IH"(2) [OF False] False "2.prems" by simp
    then show ?thesis using False by simp
  qed
qed

lemma split_pieces_clean:
  "p \<in> set (splitSeparators [] s) \<Longrightarrow> c \<in> set p \<Longrightarrow> \<not> isSeparator c"
  using split_pieces_all [of "[]" s] by (simp add: list_all_iff)

lemma trim_clean:
  assumes "\<And>c. c \<in> set p \<Longrightarrow> \<not> isSeparator c"
  shows "trim p = p"
proof (cases "p = []")
  case True
  then show ?thesis by (simp add: trim_def)
next
  case False
  then have "hd p \<in> set p" and "last p \<in> set p" by simp_all
  then have "\<not> isSeparator (hd p)" and "\<not> isSeparator (last p)"
    using assms by blast+
  then have "\<not> isWhiteSpace (hd p) \<and> \<not> isWhiteSpace (last p)"
    unfolding isSeparator_def by blast
  then show ?thesis by (intro trim_fixed disjI2)
qed

lemma excludeTokens_split:
  "excludeTokens s = filter (\<lambda>p. p \<noteq> []) (splitSeparators [] s)"
proof -
  have "map trim (splitSeparators [] s) = splitSeparators [] s"
  proof (rule map_idI)
    fix p assume "p \<in> set (splitSeparators [] s)"
    then show "trim p = p"
      using split_pieces_clean [of p s] by (intro trim_clean)
  qed
  then show ?thesis by (simp add: excludeTokens_def)
qed

lemma excludeTokens_Nil: "excludeTokens [] = []"
  by (simp add: excludeTokens_split)

lemma excludeTokens_word:
  "t \<noteq> [] \<Longrightarrow> \<forall>c \<in> set t. \<not> isSeparator c \<Longrightarrow> excludeTokens t = [t]"
  by (simp add: excludeTokens_split split_no_sep)

lemma excludeTokens_append:
  "isSeparator c \<Longrightarrow> excludeTokens (a @ c # b) = excludeTokens a @ excludeTokens b"
  by (simp add: excludeTokens_split split_append_sep)

lemma excludeTokens_clean:
  "t \<in> set (excludeTokens s) \<Longrightarrow> t \<noteq> [] \<and> (\<forall>c \<in> set t. \<not> isSeparator c)"
  using split_pieces_clean [of t s] by (simp add: excludeTokens_split)

text \<open>
  C8: the exclusion step keeps exactly the rows whose agent contains none of the tokens
  as a contiguous run of code units (so the match is case-sensitive), in the filtered
  view and in the base rows of the comparison alike; without tokens every row is kept.
  The tokens of the input are its maximal runs free of commas and white space: the
  empty input has none, a non-empty run free of separators is its own single token, a
  separator splits the input into the tokens before it and the tokens after it, and no
  token is empty or holds a separator.
\<close>

theorem exclusion_substring:
  "excludeStage (excludeTokens inp) d =
     filter (\<lambda>r. \<not> (\<exists>tok \<in> set (excludeTokens inp). \<exists>p q. agent r = p @ tok @ q)) d
   \<and> baseRowsForCompare (excludeTokens inp) d = excludeStage (excludeTokens inp) d
   \<and> (excludeTokens inp = [] \<longrightarrow> excludeStage (excludeTokens inp) d = d)
   \<and> excludeTokens [] = []
   \<and> (t \<noteq> [] \<and> (\<forall>c \<in> set t. \<not> isSeparator c) \<longrightarrow> excludeTokens t = [t])
   \<and> (isSeparator c \<longrightarrow> excludeTokens (a @ c # b) = excludeTokens a @ excludeTokens b)
   \<and> (\<forall>tok \<in> set (excludeTokens inp). tok \<noteq> [] \<and> (\<forall>c \<in> set tok. \<not> isSeparator c))"
proof -
  have a1: "excludeStage (excludeTokens inp) d =
     filter (\<lambda>r. \<not> (\<exists>tok \<in> set (excludeTokens inp). \<exists>p q. agent r = p @ tok @ q)) d"
    by (simp add: excludeStage_filter str_includes_iff)
  have a2: "baseRowsForCompare (excludeTokens inp) d = excludeStage (excludeTokens inp) d"
    unfolding excludeStage_filter baseRowsForCompare_def
    by (rule filter_cong) (simp_all add: passExclude_iff)
  have a3: "excludeTokens inp = [] \<longrightarrow> excludeStage (excludeTokens inp) d = d"
    by (simp add: excludeStage_def)
  have a4: "excludeTokens [] = []"
    by (rule excludeTokens_Nil)
  have a5: "t \<noteq> [] \<and> (\<forall>c \<in> set t. \<not> isSeparator c) \<longrightarrow> excludeTokens t = [t]"
    using excludeTokens_word [of t] by simp
  have a6: "isSeparator c \<longrightarrow> excludeTokens (a @ c # b) = excludeTokens a @ excludeTokens b"
    using excludeTokens_append [of c a b] by simp
  have a7: "\<forall>tok \<in> set (excludeTokens inp). tok \<noteq> [] \<and> (\<forall>c \<in> set tok. \<not> isSeparator c)"
    using excludeTokens_clean [of _ inp] by simp
  show ?thesis
    by (intro conjI) (rule a1 a2 a3 a4 a5 a6 a7)+
qed

lemma tokens_Alpha_Beta:
  "excludeTokens (ascii ''Alpha, Beta'') = [ascii ''Alpha'', ascii ''Beta'']"
  by (simp add: excludeTokens_def ascii_def isSeparator_def isWhiteSpace_def trim_def)

theorem exclusion_substring_witness:
  "excludeStage (excludeTokens []) seed = seed
   \<and> excludeTokens (ascii ''Alpha'') = [ascii ''Alpha'']
   \<and> excludeTokens (ascii ''Alpha'' @ 0x2C # ascii '' Beta'') =
       excludeTokens (ascii ''Alpha'') @ excludeTokens (ascii '' Beta'')
   \<and> excludeStage (excludeTokens (ascii ''Alpha, Beta''))
         [hd seed\<lparr> agent := ascii ''AlphaCorp'' \<rparr>, hd seed\<lparr> agent := ascii ''Gamma'' \<rparr>]
       = [hd seed\<lparr> agent := ascii ''Gamma'' \<rparr>]"
proof -
  note t = exclusion_substring [of "[]" seed "ascii ''Alpha''" "0x2C" "ascii ''Alpha''" "ascii '' Beta''"]
  have sep: "isSeparator 0x2C" by (simp add: isSeparator_def)
  have w: "ascii ''Alpha'' \<noteq> [] \<and> (\<forall>c \<in> set (ascii ''Alpha''). \<not> isSeparator c)"
    by (simp add: ascii_def isSeparator_def isWhiteSpace_def)
  from t have a: "excludeStage (excludeTokens []) seed = seed" by blast
  from t w have b: "excludeTokens (ascii ''Alpha'') = [ascii ''Alpha'']" by blast
  from t sep have c: "excludeTokens (ascii ''Alpha'' @ 0x2C # ascii '' Beta'') =
       excludeTokens (ascii ''Alpha'') @ excludeTokens (ascii '' Beta'')" by blast
  have d: "excludeStage (excludeTokens (ascii ''Alpha, Beta''))
         [hd seed\<lparr> agent := ascii ''AlphaCorp'' \<rparr>, hd seed\<lparr> agent := ascii ''Gamma'' \<rparr>]
       = [hd seed\<lparr> agent := ascii ''Gamma'' \<rparr>]"
    unfolding tokens_Alpha_Beta by (simp add: excludeStage_def passExclude_def ascii_def)
  from a b c d show ?thesis by blast
qed

text \<open>
  The earlier variant of the filter (src/src/App.tsx) excludes by equality with the whole
  trimmed input instead: an agent that only contains the input is kept there.
\<close>

lemma excludeStageOld_keeps_substring:
  "excludeStageOld (ascii ''Alpha'') [hd seed\<lparr> agent := ascii ''AlphaCorp'' \<rparr>]
     = [hd seed\<lparr> agent := ascii ''AlphaCorp'' \<rparr>]"
  by (simp add: excludeStageOld_def trim_def ascii_def isWhiteSpace_def)

section \<open>Properties of the Pareto aggregation\<close>

lemma toFixed_nonneg_small:
  "0 \<le> x \<Longrightarrow> x < 10 ^ 21 \<Longrightarrow> toFixed d x = of_int \<lfloor>x * 10 ^ d + 1 / 2\<rfloor> / 10 ^ d"
  by (simp add: toFixed_def)

lemma toFixed_large: "10 ^ 21 \<le> x \<Longrightarrow> toFixed d x = x"
  by (simp add: toFixed_def)

lemma toFixed_mono_nonneg:
  assumes "0 \<le> x" and "x \<le> y"
  shows "toFixed d x \<le> toFixed d y"
proof (cases "x < 10 ^ 21")
  case False
  then show ?thesis using assms by (simp add: toFixed_large)
next
  case True
  note xs = toFixed_nonneg_small [OF assms(1) True, of d]
  show ?thesis
  proof (cases "y < 10 ^ 21")
    case True
    have "0 \<le> y" using assms by simp
    note ys = toFixed_nonneg_small [OF this True, of d]
    have "x * 10 ^ d + 1 / 2 \<le> y * 10 ^ d + 1 / 2"
      using assms(2) by (simp add: mult_right_mono)
    then have "\<lfloor>x * 10 ^ d + 1 / 2\<rfloor> \<le> \<lfloor>y * 10 ^ d + 1 / 2\<rfloor>"
      by (rule floor_mono)
    then have "(of_int \<lfloor>x * 10 ^ d + 1 / 2\<rfloor> :: real) \<le> of_int \<lfloor>y * 10 ^ d + 1 / 2\<rfloor>"
      by simp
    then show ?thesis
      unfolding xs ys by (rule divide_right_mono) simp
  next
    case False
    then have yl: "10 ^ 21 \<le> y" by simp
    have "x * 10 ^ d < 10 ^ 21 * 10 ^ d"
      using \<open>x < 10 ^ 21\<close> by (simp add: mult_strict_right_mono)
    moreover have "(of_int (10 ^ 21 * 10 ^ d) :: real) = 10 ^ 21 * 10 ^ d"
      by simp
    ultimately have "x * 10 ^ d + 1 / 2 < of_int (10 ^ 21 * 10 ^ d) + 1"
      by linarith
    then have "\<lfloor>x * 10 ^ d + 1 / 2\<rfloor> \<le> 10 ^ 21 * 10 ^ d"
      by (simp only: floor_le_iff)
    then have "(of_int \<lfloor>x * 10 ^ d + 1 / 2\<rfloor> :: real) \<le> of_int (10 ^ 21 * 10 ^ d)"
      by (simp only: of_int_le_iff)
    then have "(of_int \<lfloor>x * 10 ^ d + 1 / 2\<rfloor> :: real) \<le> 10 ^ 21 * 10 ^ d"
      by simp
    then have "of_int \<lfloor>x * 10 ^ d + 1 / 2\<rfloor> / 10 ^ d \<le> (10 ^ 21 :: real)"
      by (simp add: divide_le_eq)
    then show ?thesis
      unfolding xs toFixed_large [OF yl] using yl by linarith
  qed
qed

lemma toFixed_100: "toFixed 2 100 = 100"
  by (simp add: toFixed_def)

lemma toFixed_0: "toFixed d 0 = 0"
  by (simp add: toFixed_def)

lemma toDouble_between:
  assumes "isDouble lo" and "isDouble hi" and "lo \<le> x" and "x \<le> y" and "y \<le> hi"
  shows "\<exists>a b. toDouble x = Fin a \<and> toDouble y = Fin b \<and> lo \<le> a \<and> a \<le> b \<and> b \<le> hi"
proof -
  note bl = isDouble_bound [OF assms(1)] and bh = isDouble_bound [OF assms(2)]
  have "\<bar>x\<bar> < overflowThreshold" "\<bar>y\<bar> < overflowThreshold"
    using bl bh assms(3,4,5) by linarith+
  then have x: "toDouble x = Fin (roundFinite x)" and y: "toDouble y = Fin (roundFinite y)"
    by (simp_all add: toDouble_finite)
  have "roundFinite lo \<le> roundFinite x" using assms(3) by (rule roundFinite_mono)
  then have 1: "lo \<le> roundFinite x" by (simp add: roundFinite_exact [OF assms(1)])
  have 2: "roundFinite x \<le> roundFinite y" using assms(4) by (rule roundFinite_mono)
  have "roundFinite y \<le> roundFinite hi" using assms(5) by (rule roundFinite_mono)
  then have 3: "roundFinite y \<le> hi" by (simp add: roundFinite_exact [OF assms(2)])
  show ?thesis using x y 1 2 3 by blast
qed

lemma isDouble_1: "isDouble 1" and isDouble_100: "isDouble 100"
  using isDouble_of_int [of 1] isDouble_of_int [of 100] by simp_all

lemma toDouble_100: "toDouble 100 = Fin 100"
  using toDouble_numeral [of "num.Bit0 (num.Bit0 (num.Bit1 (num.Bit0 (num.Bit0 (num.Bit1 num.One)))))"]
  by simp

lemma sharePercent_bounds:
  assumes "0 \<le> c" and "c \<le> c'" and "c' \<le> t" and "0 < t"
  shows "\<exists>s s'. sharePercent (Fin c) (Fin t) = Fin s \<and> sharePercent (Fin c') (Fin t) = Fin s'
                 \<and> 0 \<le> s \<and> s \<le> s' \<and> s' \<le> 100"
proof -
  have q: "0 \<le> c / t" "c / t \<le> c' / t" "c' / t \<le> 1"
    using assms by (simp_all add: divide_right_mono)
  obtain a a' where a: "toDouble (c / t) = Fin a" "toDouble (c' / t) = Fin a'"
      "0 \<le> a" "a \<le> a'" "a' \<le> 1"
    using toDouble_between [OF isDouble_0 isDouble_1 q] by blast
  have m: "0 \<le> a * 100" "a * 100 \<le> a' * 100" "a' * 100 \<le> 100"
    using a(3,4,5) by simp_all
  obtain b b' where b: "toDouble (a * 100) = Fin b" "toDouble (a' * 100) = Fin b'"
      "0 \<le> b" "b \<le> b'" "b' \<le> 100"
    using toDouble_between [OF isDouble_0 isDouble_100 m] by blast
  have f: "0 \<le> toFixed 2 b" "toFixed 2 b \<le> toFixed 2 b'" "toFixed 2 b' \<le> 100"
    using toFixed_mono_nonneg [of 0 b 2] toFixed_mono_nonneg [of b b' 2]
          toFixed_mono_nonneg [of b' 100 2] b(3,4,5)
    by (simp_all add: toFixed_0 toFixed_100)
  obtain s s' where s: "toDouble (toFixed 2 b) = Fin s" "toDouble (toFixed 2 b') = Fin s'"
      "0 \<le> s" "s \<le> s'" "s' \<le> 100"
    using toDouble_between [OF isDouble_0 isDouble_100 f] by blast
  have t0: "t \<noteq> 0" using assms(4) by simp
  have "sharePercent (Fin c) (Fin t) = Fin s"
    by (simp add: sharePercent_def t0 a(1) b(1) fixedNum_def s(1))
  moreover have "sharePercent (Fin c') (Fin t) = Fin s'"
    by (simp add: sharePercent_def t0 a(2) b(2) fixedNum_def s(2))
  ultimately show ?thesis using s(3,4,5) by blast
qed

lemma sharePercent_whole:
  assumes "t \<noteq> 0"
  shows "sharePercent (Fin t) (Fin t) = Fin 100"
  using assms by (simp add: sharePercent_def toDouble_1 toDouble_100 fixedNum_def toFixed_100)

lemma overflowThreshold_pos: "0 < overflowThreshold"
  by (simp add: overflowThreshold_def)

lemma toDouble_nonneg:
  assumes "0 \<le> x"
  shows "nonnegNum (toDouble x)"
proof (cases "overflowThreshold \<le> \<bar>x\<bar>")
  case True
  then have "0 < x" using assms overflowThreshold_pos by linarith
  then show ?thesis using True by (simp add: toDouble_def nonnegNum_def)
next
  case False
  then show ?thesis using roundFinite_nonneg [OF assms] by (simp add: toDouble_def nonnegNum_def)
qed

lemma fadd_nonneg:
  assumes "nonnegNum a" and "nonnegNum b"
  shows "nonnegNum (fadd a b)"
proof (cases a)
  case (Fin x)
  show ?thesis
  proof (cases b)
    case b: (Fin y)
    have "0 \<le> x + y" using assms Fin b by (simp add: nonnegNum_def)
    then show ?thesis using Fin b by (simp add: toDouble_nonneg)
  qed (use assms Fin in \<open>simp_all add: nonnegNum_def\<close>)
next
  case PosInf
  then show ?thesis using assms by (cases b) (simp_all add: nonnegNum_def)
qed (use assms in \<open>simp_all add: nonnegNum_def\<close>)

lemma fadd_PosInf: "nonnegNum b \<Longrightarrow> fadd PosInf b = PosInf"
  by (cases b) (simp_all add: nonnegNum_def)

lemma foldl_PosInf:
  "\<forall>d \<in> set ds. nonnegNum (snd d) \<Longrightarrow> foldl (\<lambda>s d. fadd s (snd d)) PosInf ds = PosInf"
  by (induction ds) (simp_all add: fadd_PosInf)

lemma foldl_finite_step:
  assumes "\<forall>x \<in> set (d # ds). nonnegNum (snd x)" and "isDouble c" and "0 \<le> c"
    and "foldl (\<lambda>s d. fadd s (snd d)) (Fin c) (d # ds) = Fin u"
  shows "\<exists>c'. fadd (Fin c) (snd d) = Fin c' \<and> c \<le> c' \<and> isDouble c'
              \<and> foldl (\<lambda>s d. fadd s (snd d)) (Fin c') ds = Fin u"
proof -
  have r: "\<forall>x \<in> set ds. nonnegNum (snd x)" and n: "nonnegNum (snd d)" using assms(1) by simp_all
  have f: "foldl (\<lambda>s d. fadd s (snd d)) (fadd (Fin c) (snd d)) ds = Fin u" using assms(4) by simp
  show ?thesis
  proof (cases "snd d")
    case (Fin v)
    then have v: "0 \<le> v" using n by (simp add: nonnegNum_def)
    have nn: "nonnegNum (toDouble (c + v))" using v assms(3) by (intro toDouble_nonneg) simp
    show ?thesis
    proof (cases "toDouble (c + v)")
      case c': (Fin c')
      have "toDouble c = Fin c" using assms(2) by (rule toDouble_exact)
      then have "c \<le> c'" using toDouble_mono [of c "c + v" c c'] v c' by simp
      moreover have "isDouble c'" using c' by (rule toDouble_isDouble)
      ultimately show ?thesis using f Fin c' by simp
    next
      case PosInf
      then show ?thesis using f Fin foldl_PosInf [OF r] by simp
    next
      case NegInf
      then show ?thesis using nn by (simp add: nonnegNum_def)
    next
      case NaN
      then show ?thesis using nn by (simp add: nonnegNum_def)
    qed
  next
    case PosInf
    then show ?thesis using f foldl_PosInf [OF r] by simp
  qed (use n in \<open>simp_all add: nonnegNum_def\<close>)
qed

lemma foldl_finite_ge:
  assumes "\<forall>x \<in> set ds. nonnegNum (snd x)" and "isDouble c" and "0 \<le> c"
    and "foldl (\<lambda>s d. fadd s (snd d)) (Fin c) ds = Fin u"
  shows "c \<le> u"
  using assms
proof (induction ds arbitrary: c)
  case Nil
  then show ?case by simp
next
  case (Cons d ds)
  obtain c' where c': "fadd (Fin c) (snd d) = Fin c'" "c \<le> c'" "isDouble c'"
      "foldl (\<lambda>s d. fadd s (snd d)) (Fin c') ds = Fin u"
    using foldl_finite_step [OF Cons.prems] by blast
  have "\<forall>x \<in> set ds. nonnegNum (snd x)" using Cons.prems(1) by simp
  moreover have "0 \<le> c'" using Cons.prems(3) c'(2) by simp
  ultimately show ?case using Cons.IH [OF _ c'(3) _ c'(4)] c'(2) by simp
qed

lemma cumulate_length: "length (cumulate tot cum ds) = length ds"
  by (induction ds arbitrary: cum) simp_all

lemma cumulate_pOpen: "map pOpen (cumulate tot cum ds) = map snd ds"
  by (induction ds arbitrary: cum) simp_all

lemma cumulate_pMerchant: "map pMerchant (cumulate tot cum ds) = map fst ds"
  by (induction ds arbitrary: cum) simp_all

lemma cumulate_nth:
  "i < length ds \<Longrightarrow>
   cumulativeShare (cumulate tot cum ds ! i) =
     sharePercent (foldl fadd cum (map snd (take (Suc i) ds))) tot"
proof (induction ds arbitrary: cum i)
  case Nil
  then show ?case by simp
next
  case (Cons d ds)
  show ?case
  proof (cases i)
    case 0
    then show ?thesis by simp
  next
    case (Suc j)
    then have "j < length ds" using Cons.prems by simp
    from Cons.IH [OF this, of "fadd cum (snd d)"] show ?thesis
      using Suc by simp
  qed
qed

lemma cumulate_last:
  "ds \<noteq> [] \<Longrightarrow>
   cumulativeShare (last (cumulate tot cum ds)) =
     sharePercent (foldl (\<lambda>s d. fadd s (snd d)) cum ds) tot"
proof (induction ds arbitrary: cum)
  case Nil
  then show ?case by simp
next
  case (Cons d ds)
  show ?case
  proof (cases "ds = []")
    case True
    then show ?thesis by simp
  next
    case False
    then have "cumulate tot (fadd cum (snd d)) ds \<noteq> []"
      using cumulate_length [of tot "fadd cum (snd d)" ds] by (metis length_0_conv)
    then show ?thesis using Cons.IH [OF False, of "fadd cum (snd d)"] by simp
  qed
qed

lemma nonDecreasing_Fin: "nonDecreasing (map Fin ss) = sorted ss"
proof (induction ss rule: induct_list012)
  case (3 a b ss)
  then show ?case by (simp only: list.map nonDecreasing.simps fle.simps sorted2)
qed simp_all

lemma cumulate_shares:
  assumes "\<forall>d \<in> set ds. nonnegNum (snd d)" and "isDouble c" and "0 \<le> c"
    and "foldl (\<lambda>s d. fadd s (snd d)) (Fin c) ds = Fin u" and "u \<le> t" and "0 < t"
    and "sharePercent (Fin c) (Fin t) = Fin s0"
  shows "\<exists>ss. map cumulativeShare (cumulate (Fin t) (Fin c) ds) = map Fin ss
               \<and> sorted ss \<and> (\<forall>s \<in> set ss. s0 \<le> s \<and> s \<le> 100)"
  using assms(1,2,3,4,7)
proof (induction ds arbitrary: c s0)
  case Nil
  show ?case by simp
next
  case (Cons d ds)
  obtain c' where c': "fadd (Fin c) (snd d) = Fin c'" "c \<le> c'" "isDouble c'"
      "foldl (\<lambda>s d. fadd s (snd d)) (Fin c') ds = Fin u"
    using foldl_finite_step [OF Cons.prems(1,2,3,4)] by blast
  have r: "\<forall>x \<in> set ds. nonnegNum (snd x)" using Cons.prems(1) by simp
  have p: "0 \<le> c'" using Cons.prems(3) c'(2) by simp
  have cu: "c' \<le> u" using foldl_finite_ge [OF r c'(3) p c'(4)] .
  then have ct: "c' \<le> t" using assms(5) by simp
  obtain s s' where s: "sharePercent (Fin c) (Fin t) = Fin s" "sharePercent (Fin c') (Fin t) = Fin s'"
      "0 \<le> s" "s \<le> s'" "s' \<le> 100"
    using sharePercent_bounds [OF Cons.prems(3) c'(2) ct assms(6)] by blast
  have s0: "s0 = s" using s(1) Cons.prems(5) by simp
  obtain ss where ss: "map cumulativeShare (cumulate (Fin t) (Fin c') ds) = map Fin ss"
      "sorted ss" "\<forall>x \<in> set ss. s' \<le> x \<and> x \<le> 100"
    using Cons.IH [OF r c'(3) p c'(4) s(2)] by blast
  have "map cumulativeShare (cumulate (Fin t) (Fin c) (d # ds)) = map Fin (s' # ss)"
    using c'(1) s(2) ss(1) by simp
  moreover have "sorted (s' # ss)" using ss(2,3) by simp
  moreover have "\<forall>x \<in> set (s' # ss). s0 \<le> x \<and> x \<le> 100"
    using ss(3) s(4,5) s0 by auto
  ultimately show ?case by blast
qed

lemma mapSet_values:
  "x \<in> set (mapSet m k v) \<Longrightarrow> snd x = v \<or> x \<in> set m"
  by (induction m) (auto split: if_splits)

lemma mapGet_value: "mapGet m k = Some v \<Longrightarrow> (k, v) \<in> set m"
  unfolding mapGet_def by (rule map_of_SomeD)

lemma sumByKey_step_nonneg:
  assumes "\<forall>d \<in> set m. nonnegNum (snd d)" and "0 \<le> a"
  shows "\<forall>d \<in> set (mapSet m k (fadd (case mapGet m k of None \<Rightarrow> Fin 0 | Some v \<Rightarrow> v) (Fin a))).
           nonnegNum (snd d)"
proof
  fix d
  assume d: "d \<in> set (mapSet m k (fadd (case mapGet m k of None \<Rightarrow> Fin 0 | Some v \<Rightarrow> v) (Fin a)))"
  have "nonnegNum (case mapGet m k of None \<Rightarrow> Fin 0 | Some v \<Rightarrow> v)"
  proof (cases "mapGet m k")
    case None
    then show ?thesis by (simp add: nonnegNum_def)
  next
    case (Some v)
    then have "(k, v) \<in> set m" by (rule mapGet_value)
    then have "nonnegNum v" using assms(1) by fastforce
    then show ?thesis using Some by simp
  qed
  moreover have "nonnegNum (Fin a)" using assms(2) by (simp add: nonnegNum_def)
  ultimately have s: "nonnegNum (fadd (case mapGet m k of None \<Rightarrow> Fin 0 | Some v \<Rightarrow> v) (Fin a))"
    by (rule fadd_nonneg)
  from mapSet_values [OF d] show "nonnegNum (snd d)"
  proof
    assume "snd d = fadd (case mapGet m k of None \<Rightarrow> Fin 0 | Some v \<Rightarrow> v) (Fin a)"
    then show ?thesis using s by simp
  next
    assume "d \<in> set m"
    then show ?thesis using assms(1) by simp
  qed
qed

lemma sumByKey_foldl_nonneg:
  assumes "\<forall>r \<in> set rs. 0 \<le> amount r" and "\<forall>d \<in> set m. nonnegNum (snd d)"
  shows "\<forall>d \<in> set (foldl (\<lambda>m r. mapSet m (key r)
            (fadd (case mapGet m (key r) of None \<Rightarrow> Fin 0 | Some v \<Rightarrow> v) (Fin (amount r)))) m rs).
           nonnegNum (snd d)"
  using assms
proof (induction rs arbitrary: m)
  case Nil
  then show ?case by simp
next
  case (Cons r rs)
  have a: "0 \<le> amount r" using Cons.prems(1) by simp
  have m': "\<forall>d \<in> set (mapSet m (key r)
          (fadd (case mapGet m (key r) of None \<Rightarrow> Fin 0 | Some v \<Rightarrow> v) (Fin (amount r)))).
            nonnegNum (snd d)"
    using sumByKey_step_nonneg [OF Cons.prems(2) a] .
  have rs: "\<forall>r \<in> set rs. 0 \<le> amount r" using Cons.prems(1) by simp
  show ?case using Cons.IH [OF rs m'] by simp
qed

lemma sumByKey_nonneg:
  "\<forall>r \<in> set rs. 0 \<le> amount r \<Longrightarrow> \<forall>d \<in> set (sumByKey key amount rs). nonnegNum (snd d)"
  using sumByKey_foldl_nonneg [of rs amount "[]" key] by (simp add: sumByKey_def)

lemma sumByKey_keys: "mapKeys (sumByKey key amount rs) = distinctFirst (map key rs)"
  using mapKeys_foldl [of key "\<lambda>m r. fadd (case mapGet m (key r) of None \<Rightarrow> Fin 0 | Some v \<Rightarrow> v)
                                          (Fin (amount r))" "[]" rs]
  by (simp add: sumByKey_def mapKeys_Nil)

lemma sumByKey_foldl_get:
  "mapGet (foldl (\<lambda>m r. mapSet m (key r)
            (fadd (case mapGet m (key r) of None \<Rightarrow> Fin 0 | Some v \<Rightarrow> v) (Fin (amount r)))) m rs) k =
     (if filter (\<lambda>r. key r = k) rs = [] then mapGet m k
      else Some (foldl fadd (case mapGet m k of None \<Rightarrow> Fin 0 | Some v \<Rightarrow> v)
                   (map (\<lambda>r. Fin (amount r)) (filter (\<lambda>r. key r = k) rs))))"
proof (induction rs arbitrary: m)
  case Nil
  show ?case by simp
next
  case (Cons r rs)
  show ?case
    by (simp add: Cons.IH mapGet_mapSet)
qed

lemma sumByKey_get:
  "mapGet (sumByKey key amount rs) k =
     (if filter (\<lambda>r. key r = k) rs = [] then None
      else Some (numSum (map (\<lambda>r. Fin (amount r)) (filter (\<lambda>r. key r = k) rs))))"
  using sumByKey_foldl_get [of key amount "[]" rs k]
  by (simp add: sumByKey_def mapGet_Nil numSum_def)

lemma sumByKey_entry:
  assumes "(k, v) \<in> set (sumByKey key amount rs)"
  shows "v = numSum (map (\<lambda>r. Fin (amount r)) (filter (\<lambda>r. key r = k) rs))"
proof -
  have "distinct (map fst (sumByKey key amount rs))"
    using sumByKey_keys [of key amount rs] distinct_distinctFirst [of "map key rs"]
    by (simp add: mapKeys_def)
  then have "mapGet (sumByKey key amount rs) k = Some v"
    unfolding mapGet_def using assms by simp
  then show ?thesis by (simp add: sumByKey_get split: if_splits)
qed

lemma mset_sortDescNum: "mset (sortDescNum f xs) = mset xs"
  by (simp add: sortDescNum_def)

lemma set_sortDescNum: "set (sortDescNum f xs) = set xs"
  by (simp add: sortDescNum_def)

lemma pareto_pairs:
  "map (\<lambda>p. (pMerchant p, pOpen p)) (useParetoByMerchant rs) =
     sortDescNum snd (sumByKey merchant openAmount rs)"
proof -
  have "map (\<lambda>p. (pMerchant p, pOpen p)) (cumulate tot cum ds) = ds" for tot cum ds
    by (induction ds arbitrary: cum) simp_all
  then show ?thesis by (simp add: useParetoByMerchant_def Let_def)
qed

lemma pareto_pOpen:
  "map pOpen (useParetoByMerchant rs) = map snd (sortDescNum snd (sumByKey merchant openAmount rs))"
  by (simp add: useParetoByMerchant_def Let_def cumulate_pOpen)

lemma pareto_merchants:
  "mset (map pMerchant (useParetoByMerchant rs)) = mset (distinctFirst (map merchant rs))"
proof -
  have 1: "map pMerchant (useParetoByMerchant rs) =
             map fst (sortDescNum snd (sumByKey merchant openAmount rs))"
    by (simp add: useParetoByMerchant_def Let_def cumulate_pMerchant)
  have 2: "mset (map fst (sortDescNum snd (sumByKey merchant openAmount rs))) =
             mset (map fst (sumByKey merchant openAmount rs))"
    by (simp add: mset_sortDescNum)
  have 3: "map fst (sumByKey merchant openAmount rs) = distinctFirst (map merchant rs)"
    using sumByKey_keys [of merchant openAmount rs] by (simp add: mapKeys_def)
  show ?thesis by (simp only: 1 2 3)
qed

lemma pareto_point:
  assumes "p \<in> set (useParetoByMerchant rs)"
  shows "pOpen p = numSum (map (\<lambda>r. Fin (openAmount r)) (filter (\<lambda>r. merchant r = pMerchant p) rs))"
proof -
  have "(pMerchant p, pOpen p) \<in> set (map (\<lambda>p. (pMerchant p, pOpen p)) (useParetoByMerchant rs))"
    using assms by force
  then have "(pMerchant p, pOpen p) \<in> set (sumByKey merchant openAmount rs)"
    by (simp only: pareto_pairs set_sortDescNum)
  then show ?thesis by (rule sumByKey_entry)
qed

lemma foldl_snd: "foldl (\<lambda>s d. fadd s (snd d)) a ds = foldl fadd a (map snd ds)"
  by (induction ds arbitrary: a) simp_all

lemma pareto_total:
  "paretoTotal (sortDescNum snd (sumByKey merchant openAmount rs)) =
     orOne (numSum (map pOpen (useParetoByMerchant rs)))"
  by (simp add: paretoTotal_def pareto_pOpen numSum_def foldl_snd)

lemma pareto_nth:
  assumes "i < length (useParetoByMerchant rs)"
  shows "cumulativeShare (useParetoByMerchant rs ! i) =
          sharePercent (numSum (map pOpen (take (Suc i) (useParetoByMerchant rs))))
                       (orOne (numSum (map pOpen (useParetoByMerchant rs))))"
proof -
  let ?lst = "sortDescNum snd (sumByKey merchant openAmount rs)"
  have u: "useParetoByMerchant rs = cumulate (paretoTotal ?lst) (Fin 0) ?lst"
    by (simp add: useParetoByMerchant_def Let_def)
  have i: "i < length ?lst"
    using assms by (simp add: u cumulate_length)
  have e: "map pOpen (take (Suc i) (useParetoByMerchant rs)) = map snd (take (Suc i) ?lst)"
    by (simp only: take_map [symmetric] pareto_pOpen)
  have "cumulativeShare (useParetoByMerchant rs ! i) =
          sharePercent (foldl fadd (Fin 0) (map snd (take (Suc i) ?lst))) (paretoTotal ?lst)"
    unfolding u by (rule cumulate_nth [OF i])
  then show ?thesis by (simp only: pareto_total numSum_def e)
qed

lemma pareto_sorted:
  assumes "\<forall>r \<in> set rs. 0 \<le> openAmount r"
    and "numSum (map pOpen (useParetoByMerchant rs)) = Fin t"
  shows "list_all isFiniteNum (map cumulativeShare (useParetoByMerchant rs))
         \<and> nonDecreasing (map cumulativeShare (useParetoByMerchant rs))"
proof -
  let ?lst = "sortDescNum snd (sumByKey merchant openAmount rs)"
  have vals: "\<forall>d \<in> set ?lst. nonnegNum (snd d)"
    using sumByKey_nonneg [OF assms(1), of merchant] by (simp add: set_sortDescNum)
  have f: "foldl (\<lambda>s d. fadd s (snd d)) (Fin 0) ?lst = Fin t"
    using assms(2) by (simp add: pareto_pOpen numSum_def foldl_snd)
  have t: "0 \<le> t" using foldl_finite_ge [OF vals isDouble_0 _ f] by simp
  define tot where "tot = (if t = 0 then 1 else t)"
  have tot: "paretoTotal ?lst = Fin tot" by (simp add: paretoTotal_def f orOne_def tot_def)
  have tp: "0 < tot" and tu: "t \<le> tot" using t by (simp_all add: tot_def)
  obtain s0 where s0: "sharePercent (Fin 0) (Fin tot) = Fin s0"
    using sharePercent_bounds [of 0 0 tot] tp by auto
  obtain ss where ss: "map cumulativeShare (cumulate (Fin tot) (Fin 0) ?lst) = map Fin ss" "sorted ss"
    using cumulate_shares [OF vals isDouble_0 _ f tu tp s0] by auto
  have "map cumulativeShare (useParetoByMerchant rs) = map Fin ss"
    using ss(1) by (simp add: useParetoByMerchant_def Let_def tot)
  then show ?thesis
    using ss(2) by (simp add: nonDecreasing_Fin list_all_iff isFiniteNum_def)
qed

lemma pareto_last:
  assumes "numSum (map pOpen (useParetoByMerchant rs)) = Fin t" and "t \<noteq> 0"
  shows "useParetoByMerchant rs \<noteq> [] \<and> cumulativeShare (last (useParetoByMerchant rs)) = Fin 100"
proof -
  let ?lst = "sortDescNum snd (sumByKey merchant openAmount rs)"
  have f: "foldl (\<lambda>s d. fadd s (snd d)) (Fin 0) ?lst = Fin t"
    using assms(1) by (simp add: pareto_pOpen numSum_def foldl_snd)
  have ne: "?lst \<noteq> []" using f assms(2) by auto
  have tot: "paretoTotal ?lst = Fin t" using assms(2) by (simp add: paretoTotal_def f orOne_def)
  have "cumulativeShare (last (useParetoByMerchant rs)) = sharePercent (Fin t) (Fin t)"
    using cumulate_last [OF ne, of "Fin t" "Fin 0"] by (simp add: useParetoByMerchant_def Let_def tot f)
  moreover have "useParetoByMerchant rs \<noteq> []"
    using ne cumulate_length [of "Fin t" "Fin 0" ?lst]
    by (simp add: useParetoByMerchant_def Let_def tot) (metis length_0_conv)
  ultimately show ?thesis using sharePercent_whole [OF assms(2)] by simp
qed


lemma pareto_negative_example:
  "map cumulativeShare
     (useParetoByMerchant
        [hd seed\<lparr> merchant := ascii ''A'', openAmount := 10 \<rparr>,
         hd seed\<lparr> merchant := ascii ''B'', openAmount := - 5 \<rparr>]) = [Fin 200, Fin 100]"
  by (simp add: useParetoByMerchant_def Let_def sumByKey_def mapGet_def sortDescNum_def
        descKey_def descRank_def paretoTotal_def orOne_def sharePercent_def fixedNum_def
        toFixed_def ascii_def toDouble_numeral toDouble_neg_numeral toDouble_0 toDouble_1)

lemma pareto_zero_example:
  "map cumulativeShare (useParetoByMerchant [hd seed\<lparr> openAmount := 0 \<rparr>]) = [Fin 0]"
  by (simp add: useParetoByMerchant_def Let_def sumByKey_def mapGet_def sortDescNum_def
        descKey_def descRank_def paretoTotal_def orOne_def sharePercent_def fixedNum_def
        toFixed_def toDouble_0 toDouble_1)

lemma num_negative_example: "num (Str (ascii ''-5'')) = - 5"
  by (simp add: num_def ascii_def stringToNumber_def trim_def isWhiteSpace_def nonDecimal_def
        scanDecimal_def scanUnsigned_def isDigit_def scanExponent_def finiteOr0_def
        decimalVal_def digitVal_def negate_def roundNum_def toDouble_neg_numeral)

lemma share_1: "toDouble (3893 / 4000) = Fin (4383128337338335 / 4503599627370496)"
proof -
  have "toDouble (3893 / 4000) = Fin (of_int 8766256674676670 * 2 powi (- 53))"
    by (rule toDouble_nearest_pos) simp_all
  then show ?thesis by simp
qed

lemma share_2: "toDouble (109578208433458375 / 1125899906842624) = Fin (1712159506772787 / 17592186044416)"
proof -
  have "toDouble (109578208433458375 / 1125899906842624) = Fin (of_int 6848638027091148 * 2 powi (- 46))"
    by (rule toDouble_nearest_pos) simp_all
  then show ?thesis by simp
qed

lemma share_3: "toDouble (2433 / 25) = Fin (1712071545842565 / 17592186044416)"
proof -
  have "toDouble (2433 / 25) = Fin (of_int 6848286183370260 * 2 powi (- 46))"
    by (rule toDouble_nearest_pos) simp_all
  then show ?thesis by simp
qed

text \<open>
  The roundings of doubles show in the shares.  With merchants of 97325 and of 2675 the
  first share is \<open>+(97.32499999999999).toFixed(2)\<close>, which is 97.32, where the exact
  quotient 97.325 would give 97.33.
\<close>

lemma pareto_rounding_example:
  "map cumulativeShare
     (useParetoByMerchant
        [hd seed\<lparr> merchant := ascii ''A'', openAmount := 97325 \<rparr>,
         hd seed\<lparr> merchant := ascii ''B'', openAmount := 2675 \<rparr>])
   = [toDouble (9732 / 100), Fin 100]"
  by (simp add: useParetoByMerchant_def Let_def sumByKey_def mapGet_def sortDescNum_def
        descKey_def descRank_def paretoTotal_def orOne_def sharePercent_def fixedNum_def
        toFixed_def ascii_def toDouble_numeral toDouble_neg_numeral toDouble_0 toDouble_1
        share_1 share_2 share_3)

text \<open>
  C2, as the spec states it, fails.  Open amounts are not kept from being negative
  (\<open>num\<close> reads a leading minus sign), and with merchants of 10 and of -5 the cumulative
  shares are 200 and 100: not non-decreasing.  And a set of rows that is not empty but
  sums to 0 ends with the share 0, not with 100.
\<close>

theorem pareto_not_monotone_counterexample:
  "map cumulativeShare
     (useParetoByMerchant
        [hd seed\<lparr> merchant := ascii ''A'', openAmount := 10 \<rparr>,
         hd seed\<lparr> merchant := ascii ''B'', openAmount := - 5 \<rparr>]) = [Fin 200, Fin 100]
   \<and> \<not> nonDecreasing (map cumulativeShare
       (useParetoByMerchant
          [hd seed\<lparr> merchant := ascii ''A'', openAmount := 10 \<rparr>,
           hd seed\<lparr> merchant := ascii ''B'', openAmount := - 5 \<rparr>]))
   \<and> map cumulativeShare (useParetoByMerchant [hd seed\<lparr> openAmount := 0 \<rparr>]) = [Fin 0]"
  unfolding pareto_negative_example pareto_zero_example by simp

text \<open>
  C2, amended.  The numbers are doubles and every sum, quotient and product below is the
  one of doubles.  The aggregation of no rows is empty.  There is one point for each
  merchant, and its open amount is the sum of the open amounts of the merchant's rows in
  their order.  Every cumulative share is the running sum of the points' open amounts up
  to that point, divided by the total of all points (by 1 when that total is 0 or
  \<open>NaN\<close>), times 100, rounded to 2 decimals.  When no row has a negative open amount and
  the total is finite (the sum has not overflowed), the shares are finite and
  non-decreasing.  When the total is finite and not 0, the final share is exactly 100.
\<close>

theorem pareto_cumulative_share:
  "useParetoByMerchant [] = []
   \<and> mset (map pMerchant (useParetoByMerchant rs)) = mset (distinctFirst (map merchant rs))
   \<and> (\<forall>p \<in> set (useParetoByMerchant rs).
        pOpen p = numSum (map (\<lambda>r. Fin (openAmount r)) (filter (\<lambda>r. merchant r = pMerchant p) rs)))
   \<and> (\<forall>i < length (useParetoByMerchant rs).
        cumulativeShare (useParetoByMerchant rs ! i) =
          sharePercent (numSum (map pOpen (take (Suc i) (useParetoByMerchant rs))))
                       (orOne (numSum (map pOpen (useParetoByMerchant rs)))))
   \<and> ((\<forall>r \<in> set rs. 0 \<le> openAmount r)
        \<and> isFiniteNum (numSum (map pOpen (useParetoByMerchant rs))) \<longrightarrow>
        list_all isFiniteNum (map cumulativeShare (useParetoByMerchant rs))
        \<and> nonDecreasing (map cumulativeShare (useParetoByMerchant rs)))
   \<and> (isFiniteNum (numSum (map pOpen (useParetoByMerchant rs)))
        \<and> numSum (map pOpen (useParetoByMerchant rs)) \<noteq> Fin 0 \<longrightarrow>
        useParetoByMerchant rs \<noteq> []
        \<and> cumulativeShare (last (useParetoByMerchant rs)) = Fin 100)"
proof -
  have a: "useParetoByMerchant [] = []"
    by (simp add: useParetoByMerchant_def sumByKey_def sortDescNum_def)
  have f: "isFiniteNum n \<longleftrightarrow> (\<exists>t. n = Fin t)" for n
    by (cases n) (simp_all add: isFiniteNum_def)
  have s: "(\<forall>r \<in> set rs. 0 \<le> openAmount r)
        \<and> isFiniteNum (numSum (map pOpen (useParetoByMerchant rs))) \<longrightarrow>
        list_all isFiniteNum (map cumulativeShare (useParetoByMerchant rs))
        \<and> nonDecreasing (map cumulativeShare (useParetoByMerchant rs))"
    using pareto_sorted [of rs] unfolding f by blast
  have l: "isFiniteNum (numSum (map pOpen (useParetoByMerchant rs)))
        \<and> numSum (map pOpen (useParetoByMerchant rs)) \<noteq> Fin 0 \<longrightarrow>
        useParetoByMerchant rs \<noteq> []
        \<and> cumulativeShare (last (useParetoByMerchant rs)) = Fin 100"
    using pareto_last [of rs] unfolding f by auto
  show ?thesis
    using a pareto_merchants [of rs] pareto_point [of _ rs] pareto_nth [of _ rs] s l by blast
qed

lemma seed_open_nonneg: "\<forall>r \<in> set seed. 0 \<le> openAmount r"
  by (simp add: seed_def)

lemma seed_pareto_total: "numSum (map pOpen (useParetoByMerchant seed)) = Fin 3330000"
  by (simp add: pareto_pOpen sumByKey_def seed_def mapGet_def sortDescNum_def descKey_def
        descRank_def numSum_def toDouble_numeral)

theorem pareto_cumulative_share_witness:
  "list_all isFiniteNum (map cumulativeShare (useParetoByMerchant seed))
   \<and> nonDecreasing (map cumulativeShare (useParetoByMerchant seed))
   \<and> useParetoByMerchant seed \<noteq> []
   \<and> cumulativeShare (last (useParetoByMerchant seed)) = Fin 100"
  using pareto_cumulative_share [of seed] seed_open_nonneg
  by (simp add: seed_pareto_total isFiniteNum_def)


section \<open>Properties of the ratio histogram\<close>

text \<open>
  The roundings that the histogram of the seed rows, and that of a row of ratio \<open>10^20\<close>,
  go through: each lemma gives the double nearest to a real.
\<close>

lemma dbl_1: "toDouble (1 / 20) = Fin (3602879701896397 / 72057594037927936)"
proof -
  have "toDouble (1 / 20) = Fin (of_int 7205759403792794 * 2 powi (- 57))"
    by (rule toDouble_nearest_pos) simp_all
  then show ?thesis by simp
qed

lemma dbl_2: "toDouble (1 / 1000000000000) = Fin (4951760157141521 / 4951760157141521099596496896)"
proof -
  have "toDouble (1 / 1000000000000) = Fin (of_int 4951760157141521 * 2 powi (- 92))"
    by (rule toDouble_nearest_pos) simp_all
  then show ?thesis by simp
qed

lemma dbl_3: "toDouble (7205759403792793599996397120298103603 / 72057594037927936) = Fin (100000000000000000000)"
proof -
  have "toDouble (7205759403792793599996397120298103603 / 72057594037927936) = Fin (of_int 6103515625000000 * 2 powi (14))"
    by (rule toDouble_nearest_pos) simp_all
  then show ?thesis by simp
qed

lemma dbl_4: "toDouble (7205759403792793600000000000000000000 / 3602879701896397) = Fin (2000000000000000000000)"
proof -
  have "toDouble (7205759403792793600000000000000000000 / 3602879701896397) = Fin (of_int 7629394531250000 * 2 powi (18))"
    by (rule toDouble_nearest_pos) simp_all
  then show ?thesis by simp
qed

lemma dbl_5: "toDouble (1717986918400000095367431640625 / 17179869184) = Fin (100000000000000000000)"
proof -
  have "toDouble (1717986918400000095367431640625 / 17179869184) = Fin (of_int 6103515625000000 * 2 powi (14))"
    by (rule toDouble_nearest_pos) simp_all
  then show ?thesis by simp
qed

lemma dbl_6: "toDouble (7205759403792793600003602879701896397 / 72057594037927936) = Fin (100000000000000000000)"
proof -
  have "toDouble (7205759403792793600003602879701896397 / 72057594037927936) = Fin (of_int 6103515625000000 * 2 powi (14))"
    by (rule toDouble_nearest_pos) simp_all
  then show ?thesis by simp
qed

lemma dbl_7: "toDouble (1 / 4) = Fin (1 / 4)"
proof -
  have "toDouble (1 / 4) = Fin (of_int 4503599627370496 * 2 powi (- 54))"
    by (rule toDouble_nearest_pos) simp_all
  then show ?thesis by simp
qed

lemma dbl_8: "toDouble (7 / 30) = Fin (4203359652212463 / 18014398509481984)"
proof -
  have "toDouble (7 / 30) = Fin (of_int 8406719304424926 * 2 powi (- 55))"
    by (rule toDouble_nearest_pos) simp_all
  then show ?thesis by simp
qed

lemma dbl_9: "toDouble (3 / 10) = Fin (5404319552844595 / 18014398509481984)"
proof -
  have "toDouble (3 / 10) = Fin (of_int 5404319552844595 * 2 powi (- 54))"
    by (rule toDouble_nearest_pos) simp_all
  then show ?thesis by simp
qed

lemma dbl_10: "toDouble (49 / 190) = Fin (2322909281485835 / 9007199254740992)"
proof -
  have "toDouble (49 / 190) = Fin (of_int 4645818562971670 * 2 powi (- 54))"
    by (rule toDouble_nearest_pos) simp_all
  then show ?thesis by simp
qed

lemma dbl_11: "toDouble (1 / 5) = Fin (3602879701896397 / 18014398509481984)"
proof -
  have "toDouble (1 / 5) = Fin (of_int 7205759403792794 * 2 powi (- 55))"
    by (rule toDouble_nearest_pos) simp_all
  then show ?thesis by simp
qed

lemma dbl_12: "toDouble (10808639105689191 / 72057594037927936) = Fin (1351079888211149 / 9007199254740992)"
proof -
  have "toDouble (10808639105689191 / 72057594037927936) = Fin (of_int 5404319552844596 * 2 powi (- 55))"
    by (rule toDouble_nearest_pos) simp_all
  then show ?thesis by simp
qed

lemma dbl_13: "toDouble (10808639105689192 / 3602879701896397) = Fin (6755399441055745 / 2251799813685248)"
proof -
  have "toDouble (10808639105689192 / 3602879701896397) = Fin (of_int 6755399441055745 * 2 powi (- 51))"
    by (rule toDouble_nearest_pos) simp_all
  then show ?thesis by simp
qed

lemma dbl_14: "toDouble (25220157913274777 / 72057594037927936) = Fin (3152519739159347 / 9007199254740992)"
proof -
  have "toDouble (25220157913274777 / 72057594037927936) = Fin (of_int 6305039478318694 * 2 powi (- 54))"
    by (rule toDouble_nearest_pos) simp_all
  then show ?thesis by simp
qed

lemma dbl_15: "toDouble (25220157913274776 / 3602879701896397) = Fin (7881299347898367 / 1125899906842624)"
proof -
  have "toDouble (25220157913274776 / 3602879701896397) = Fin (of_int 7881299347898367 * 2 powi (- 50))"
    by (rule toDouble_nearest_pos) simp_all
  then show ?thesis by simp
qed

lemma dbl_16: "toDouble (25220157913274779 / 72057594037927936) = Fin (6305039478318695 / 18014398509481984)"
proof -
  have "toDouble (25220157913274779 / 72057594037927936) = Fin (of_int 6305039478318695 * 2 powi (- 54))"
    by (rule toDouble_nearest_pos) simp_all
  then show ?thesis by simp
qed

lemma dbl_17: "toDouble (14411518807585589 / 72057594037927936) = Fin (3602879701896397 / 18014398509481984)"
proof -
  have "toDouble (14411518807585589 / 72057594037927936) = Fin (of_int 7205759403792794 * 2 powi (- 55))"
    by (rule toDouble_nearest_pos) simp_all
  then show ?thesis by simp
qed

lemma dbl_18: "toDouble (18014398509481985 / 72057594037927936) = Fin (1 / 4)"
proof -
  have "toDouble (18014398509481985 / 72057594037927936) = Fin (of_int 4503599627370496 * 2 powi (- 54))"
    by (rule toDouble_nearest_pos) simp_all
  then show ?thesis by simp
qed

lemma dbl_19: "toDouble (21617278211378381 / 72057594037927936) = Fin (5404319552844595 / 18014398509481984)"
proof -
  have "toDouble (21617278211378381 / 72057594037927936) = Fin (of_int 5404319552844595 * 2 powi (- 54))"
    by (rule toDouble_nearest_pos) simp_all
  then show ?thesis by simp
qed

lemma dbl_20: "toDouble (7 / 20) = Fin (3152519739159347 / 9007199254740992)"
proof -
  have "toDouble (7 / 20) = Fin (of_int 6305039478318694 * 2 powi (- 54))"
    by (rule toDouble_nearest_pos) simp_all
  then show ?thesis by simp
qed

lemma dbl_21: "toDouble (28823037615171173 / 72057594037927936) = Fin (7205759403792793 / 18014398509481984)"
proof -
  have "toDouble (28823037615171173 / 72057594037927936) = Fin (of_int 7205759403792793 * 2 powi (- 54))"
    by (rule toDouble_nearest_pos) simp_all
  then show ?thesis by simp
qed

lemma dbl_22: "toDouble (2 / 5) = Fin (3602879701896397 / 9007199254740992)"
proof -
  have "toDouble (2 / 5) = Fin (of_int 7205759403792794 * 2 powi (- 54))"
    by (rule toDouble_nearest_pos) simp_all
  then show ?thesis by simp
qed

lemma dbl_23: "toDouble (1733116054994580789628376559 / 4951760157141521099596496896) = Fin (6305039478300681 / 18014398509481984)"
proof -
  have "toDouble (1733116054994580789628376559 / 4951760157141521099596496896) = Fin (of_int 6305039478300681 * 2 powi (- 54))"
    by (rule toDouble_nearest_pos) simp_all
  then show ?thesis by simp
qed

lemma dbl_24: "toDouble (900719925474099 / 9007199254740992) = Fin (900719925474099 / 9007199254740992)"
proof -
  have "toDouble (900719925474099 / 9007199254740992) = Fin (of_int 7205759403792792 * 2 powi (- 56))"
    by (rule toDouble_nearest_pos) simp_all
  then show ?thesis by simp
qed

lemma dbl_25: "toDouble (7205759403792792 / 3602879701896397) = Fin (4503599627370495 / 2251799813685248)"
proof -
  have "toDouble (7205759403792792 / 3602879701896397) = Fin (of_int 9007199254740990 * 2 powi (- 52))"
    by (rule toDouble_nearest_pos) simp_all
  then show ?thesis by simp
qed

lemma dbl_26: "toDouble (1501199875790165 / 18014398509481984) = Fin (1501199875790165 / 18014398509481984)"
proof -
  have "toDouble (1501199875790165 / 18014398509481984) = Fin (of_int 6004799503160660 * 2 powi (- 56))"
    by (rule toDouble_nearest_pos) simp_all
  then show ?thesis by simp
qed

lemma dbl_27: "toDouble (6004799503160660 / 3602879701896397) = Fin (7505999378950825 / 4503599627370496)"
proof -
  have "toDouble (6004799503160660 / 3602879701896397) = Fin (of_int 7505999378950825 * 2 powi (- 52))"
    by (rule toDouble_nearest_pos) simp_all
  then show ?thesis by simp
qed

lemma dbl_28: "toDouble (2702159776422297 / 18014398509481984) = Fin (2702159776422297 / 18014398509481984)"
proof -
  have "toDouble (2702159776422297 / 18014398509481984) = Fin (of_int 5404319552844594 * 2 powi (- 55))"
    by (rule toDouble_nearest_pos) simp_all
  then show ?thesis by simp
qed

lemma dbl_29: "toDouble (10808639105689188 / 3602879701896397) = Fin (3377699720527871 / 1125899906842624)"
proof -
  have "toDouble (10808639105689188 / 3602879701896397) = Fin (of_int 6755399441055742 * 2 powi (- 51))"
    by (rule toDouble_nearest_pos) simp_all
  then show ?thesis by simp
qed

lemma dbl_30: "toDouble (485914696637343 / 4503599627370496) = Fin (485914696637343 / 4503599627370496)"
proof -
  have "toDouble (485914696637343 / 4503599627370496) = Fin (of_int 7774635146197488 * 2 powi (- 56))"
    by (rule toDouble_nearest_pos) simp_all
  then show ?thesis by simp
qed

lemma dbl_31: "toDouble (7774635146197488 / 3602879701896397) = Fin (2429573483186715 / 1125899906842624)"
proof -
  have "toDouble (7774635146197488 / 3602879701896397) = Fin (of_int 4859146966373430 * 2 powi (- 51))"
    by (rule toDouble_nearest_pos) simp_all
  then show ?thesis by simp
qed

lemma dbl_32: "toDouble (900719925474099 / 18014398509481984) = Fin (900719925474099 / 18014398509481984)"
proof -
  have "toDouble (900719925474099 / 18014398509481984) = Fin (of_int 7205759403792792 * 2 powi (- 57))"
    by (rule toDouble_nearest_pos) simp_all
  then show ?thesis by simp
qed

lemma dbl_33: "toDouble (3602879701896396 / 3602879701896397) = Fin (4503599627370495 / 4503599627370496)"
proof -
  have "toDouble (3602879701896396 / 3602879701896397) = Fin (of_int 9007199254740990 * 2 powi (- 53))"
    by (rule toDouble_nearest_pos) simp_all
  then show ?thesis by simp
qed

lemmas dbl_values = dbl_1 dbl_2 dbl_3 dbl_4 dbl_5 dbl_6 dbl_7 dbl_8 dbl_9 dbl_10 dbl_11 dbl_12 dbl_13 dbl_14 dbl_15 dbl_16 dbl_17 dbl_18 dbl_19 dbl_20 dbl_21 dbl_22 dbl_23 dbl_24 dbl_25 dbl_26 dbl_27 dbl_28 dbl_29 dbl_30 dbl_31 dbl_32 dbl_33

lemma roundFinite_value: "toDouble x = Fin d \<Longrightarrow> roundFinite x = d"
  by (simp add: toDouble_def split: if_splits)

lemma defaultStep_value: "defaultStep = Fin (3602879701896397 / 72057594037927936)"
  by (simp add: defaultStep_def dbl_values)

lemma epsilon12_value: "epsilon12 = Fin (4951760157141521 / 4951760157141521099596496896)"
  by (simp add: epsilon12_def dbl_values)

lemma binsFrom_stop: "\<not> flt a hi \<Longrightarrow> binsFrom a hi step = Some []"
  by (subst binsFrom.simps) simp

lemma binsFrom_step:
  "flt a hi \<Longrightarrow>
   binsFrom a hi step = Option.bind (binsFrom (fadd a step) hi step) (\<lambda>bs. Some (newBin a step # bs))"
  by (subst binsFrom.simps) simp

lemma countRow_no_bins: "countRow lo hi step [] r = Inl TypeError"
  by (auto simp: countRow_def split: jsnum.split)

lemma histogram_empty: "useRatioHistogram [] step = Some (Inr [])"
  by (simp add: useRatioHistogram_def)

lemma histogram_huge:
  "useRatioHistogram [hd seed\<lparr> ratio := 10 ^ 20 \<rparr>] defaultStep = Some (Inl TypeError)"
proof -
  let ?r = "hd seed\<lparr> ratio := 10 ^ 20 \<rparr>"
  have lo: "toStep defaultStep (fsub (Fin 100000000000000000000) defaultStep) ffloor = Fin 100000000000000000000"
    by (simp add: toStep_def fsub_def negate_def ffloor_def defaultStep_value dbl_values)
  have hi: "toStep defaultStep (fadd (Fin 100000000000000000000) defaultStep) fceil = Fin 100000000000000000000"
    by (simp add: toStep_def fceil_def defaultStep_value dbl_values)
  have bins: "binsFrom (Fin 100000000000000000000) (Fin 100000000000000000000) defaultStep = Some []"
    by (rule binsFrom_stop) simp
  have "useRatioHistogram [?r] defaultStep =
          map_option (\<lambda>bins. countRows (Fin 100000000000000000000) (Fin 100000000000000000000) defaultStep bins [?r])
            (binsFrom (Fin 100000000000000000000) (Fin 100000000000000000000) defaultStep)"
    unfolding useRatioHistogram_def Let_def
    by (simp add: fmin_def fmax_def isFiniteNum_def lo hi)
  then show ?thesis by (simp add: bins countRow_no_bins)
qed

lemma seed_ratios:
  "map ratio seed = [1 / 4, 4203359652212463 / 18014398509481984, 5404319552844595 / 18014398509481984, 2322909281485835 / 9007199254740992, 3602879701896397 / 18014398509481984]"
  by (simp add: seed_def dbl_values [THEN roundFinite_value])

lemma seed_index:
  "binIndex (Fin (1351079888211149 / 9007199254740992)) (Fin (6305039478318695 / 18014398509481984)) defaultStep (Suc (Suc (Suc (Suc (Suc 0))))) (1 / 4) = Fin 1"
  "binIndex (Fin (1351079888211149 / 9007199254740992)) (Fin (6305039478318695 / 18014398509481984)) defaultStep (Suc (Suc (Suc (Suc (Suc 0))))) (4203359652212463 / 18014398509481984) = Fin 1"
  "binIndex (Fin (1351079888211149 / 9007199254740992)) (Fin (6305039478318695 / 18014398509481984)) defaultStep (Suc (Suc (Suc (Suc (Suc 0))))) (5404319552844595 / 18014398509481984) = Fin 2"
  "binIndex (Fin (1351079888211149 / 9007199254740992)) (Fin (6305039478318695 / 18014398509481984)) defaultStep (Suc (Suc (Suc (Suc (Suc 0))))) (2322909281485835 / 9007199254740992) = Fin 2"
  "binIndex (Fin (1351079888211149 / 9007199254740992)) (Fin (6305039478318695 / 18014398509481984)) defaultStep (Suc (Suc (Suc (Suc (Suc 0))))) (3602879701896397 / 18014398509481984) = Fin 0"
  by (simp_all add: binIndex_def Let_def fmin_def fmax_def fsub_def negate_def ffloor_def
        defaultStep_value epsilon12_value dbl_values)

lemma histogram_seed:
  "useRatioHistogram seed defaultStep =
     Some (Inr
       [\<lparr> binCount = 1, binFrom = Fin (1351079888211149 / 9007199254740992), binTo = Fin (3602879701896397 / 18014398509481984) \<rparr>,
        \<lparr> binCount = 2, binFrom = Fin (3602879701896397 / 18014398509481984), binTo = Fin (1 / 4) \<rparr>,
        \<lparr> binCount = 2, binFrom = Fin (1 / 4), binTo = Fin (5404319552844595 / 18014398509481984) \<rparr>,
        \<lparr> binCount = 0, binFrom = Fin (5404319552844595 / 18014398509481984), binTo = Fin (3152519739159347 / 9007199254740992) \<rparr>,
        \<lparr> binCount = 0, binFrom = Fin (3152519739159347 / 9007199254740992), binTo = Fin (3602879701896397 / 9007199254740992) \<rparr>])"
proof -
  have rs: "map (\<lambda>r. Fin (ratio r)) seed = map Fin (map ratio seed)" by simp
  have mn: "foldl fmin PosInf (map (\<lambda>r. Fin (ratio r)) seed) = Fin (3602879701896397 / 18014398509481984)"
    unfolding rs seed_ratios by (simp add: fmin_def)
  have mx: "foldl fmax NegInf (map (\<lambda>r. Fin (ratio r)) seed) = Fin (5404319552844595 / 18014398509481984)"
    unfolding rs seed_ratios by (simp add: fmax_def)
  have lo: "toStep defaultStep (fsub (Fin (3602879701896397 / 18014398509481984)) defaultStep) ffloor = Fin (1351079888211149 / 9007199254740992)"
    by (simp add: toStep_def fsub_def negate_def ffloor_def defaultStep_value dbl_values)
  have hi: "toStep defaultStep (fadd (Fin (5404319552844595 / 18014398509481984)) defaultStep) fceil = Fin (6305039478318695 / 18014398509481984)"
    by (simp add: toStep_def fceil_def defaultStep_value dbl_values)
  have bins: "binsFrom (Fin (1351079888211149 / 9007199254740992)) (Fin (6305039478318695 / 18014398509481984)) defaultStep =
     Some [\<lparr> binCount = 0, binFrom = Fin (1351079888211149 / 9007199254740992), binTo = Fin (3602879701896397 / 18014398509481984) \<rparr>,
        \<lparr> binCount = 0, binFrom = Fin (3602879701896397 / 18014398509481984), binTo = Fin (1 / 4) \<rparr>,
        \<lparr> binCount = 0, binFrom = Fin (1 / 4), binTo = Fin (5404319552844595 / 18014398509481984) \<rparr>,
        \<lparr> binCount = 0, binFrom = Fin (5404319552844595 / 18014398509481984), binTo = Fin (3152519739159347 / 9007199254740992) \<rparr>,
        \<lparr> binCount = 0, binFrom = Fin (3152519739159347 / 9007199254740992), binTo = Fin (3602879701896397 / 9007199254740992) \<rparr>]"
    by (simp add: binsFrom_step binsFrom_stop newBin_def fixedNum_def toFixed_def
          defaultStep_value dbl_values)
  have ne: "length seed \<noteq> 0" by (simp add: seed_def)
  have u: "useRatioHistogram seed defaultStep =
          map_option (\<lambda>bins. countRows (Fin (1351079888211149 / 9007199254740992)) (Fin (6305039478318695 / 18014398509481984)) defaultStep bins seed)
            (binsFrom (Fin (1351079888211149 / 9007199254740992)) (Fin (6305039478318695 / 18014398509481984)) defaultStep)"
    unfolding useRatioHistogram_def Let_def mn mx
    using ne by (simp add: isFiniteNum_def lo hi)
  obtain r0 r1 r2 r3 r4 where rows: "seed = [r0, r1, r2, r3, r4]"
    by (simp add: seed_def)
  have r: "ratio r0 = 1 / 4" "ratio r1 = 4203359652212463 / 18014398509481984"
      "ratio r2 = 5404319552844595 / 18014398509481984" "ratio r3 = 2322909281485835 / 9007199254740992"
      "ratio r4 = 3602879701896397 / 18014398509481984"
    using seed_ratios unfolding rows by simp_all
  have c: "countRows (Fin (1351079888211149 / 9007199254740992)) (Fin (6305039478318695 / 18014398509481984)) defaultStep
          [\<lparr> binCount = 0, binFrom = Fin (1351079888211149 / 9007199254740992), binTo = Fin (3602879701896397 / 18014398509481984) \<rparr>,
        \<lparr> binCount = 0, binFrom = Fin (3602879701896397 / 18014398509481984), binTo = Fin (1 / 4) \<rparr>,
        \<lparr> binCount = 0, binFrom = Fin (1 / 4), binTo = Fin (5404319552844595 / 18014398509481984) \<rparr>,
        \<lparr> binCount = 0, binFrom = Fin (5404319552844595 / 18014398509481984), binTo = Fin (3152519739159347 / 9007199254740992) \<rparr>,
        \<lparr> binCount = 0, binFrom = Fin (3152519739159347 / 9007199254740992), binTo = Fin (3602879701896397 / 9007199254740992) \<rparr>]
          seed =
        Inr [\<lparr> binCount = 1, binFrom = Fin (1351079888211149 / 9007199254740992), binTo = Fin (3602879701896397 / 18014398509481984) \<rparr>,
        \<lparr> binCount = 2, binFrom = Fin (3602879701896397 / 18014398509481984), binTo = Fin (1 / 4) \<rparr>,
        \<lparr> binCount = 2, binFrom = Fin (1 / 4), binTo = Fin (5404319552844595 / 18014398509481984) \<rparr>,
        \<lparr> binCount = 0, binFrom = Fin (5404319552844595 / 18014398509481984), binTo = Fin (3152519739159347 / 9007199254740992) \<rparr>,
        \<lparr> binCount = 0, binFrom = Fin (3152519739159347 / 9007199254740992), binTo = Fin (3602879701896397 / 9007199254740992) \<rparr>]"
    unfolding rows by (simp add: countRow_def r seed_index eval_nat_numeral)
  show ?thesis by (simp only: u bins option.map c)
qed

lemma binsFrom_counts:
  assumes "binsFrom a hi step = Some bs"
  shows "list_all (\<lambda>b. binCount b = 0) bs"
proof (rule binsFrom.raw_induct [where P = "\<lambda>a hi step bs. list_all (\<lambda>b. binCount b = 0) bs", OF _ assms])
  fix f :: "jsnum \<Rightarrow> jsnum \<Rightarrow> jsnum \<Rightarrow> histogramBin list option" and a hi step bs
  assume ih: "\<And>a hi step bs. f a hi step = Some bs \<Longrightarrow> list_all (\<lambda>b. binCount b = 0) bs"
    and run: "(if flt a hi then Option.bind (f (fadd a step) hi step) (\<lambda>bs. Some (newBin a step # bs))
               else Some []) = Some bs"
  show "list_all (\<lambda>b. binCount b = 0) bs"
  proof (cases "flt a hi")
    case True
    with run obtain bs' where b: "f (fadd a step) hi step = Some bs'"
        and e: "bs = newBin a step # bs'"
      by (auto simp: bind_eq_Some_conv)
    from ih [OF b] show ?thesis by (simp add: e newBin_def)
  next
    case False
    with run show ?thesis by auto
  qed
qed

lemma sum_list_zero_counts:
  "list_all (\<lambda>b. binCount b = 0) bs \<Longrightarrow> sum_list (map binCount bs) = 0"
  by (induction bs) simp_all

lemma sum_counts_update:
  assumes "j < length bins"
  shows "sum_list (map binCount (bins[j := (bins ! j)\<lparr> binCount := binCount (bins ! j) + 1 \<rparr>])) =
         sum_list (map binCount bins) + 1"
proof -
  have "sum_list ((map binCount bins)[j := binCount (bins ! j) + 1]) =
        sum_list (map binCount bins) + (binCount (bins ! j) + 1) - (map binCount bins) ! j"
    using assms by (intro sum_list_update) simp
  then show ?thesis using assms by (simp add: map_update)
qed

lemma countRow_counts:
  assumes "countRow lo hi step bins r = Inr bins'"
  shows "sum_list (map binCount bins') = sum_list (map binCount bins) + 1"
proof -
  obtain i where i: "binIndex lo hi step (length bins) (ratio r) = Fin i"
    using assms by (cases "binIndex lo hi step (length bins) (ratio r)") (simp_all add: countRow_def)
  have ok: "0 \<le> i \<and> i < real (length bins) \<and> of_int \<lfloor>i\<rfloor> = i"
    using assms by (simp add: countRow_def i split: if_splits)
  then have j: "nat \<lfloor>i\<rfloor> < length bins" by linarith
  have "bins' = bins[nat \<lfloor>i\<rfloor> := (bins ! nat \<lfloor>i\<rfloor>)\<lparr> binCount := binCount (bins ! nat \<lfloor>i\<rfloor>) + 1 \<rparr>]"
    using assms ok by (simp add: countRow_def i)
  then show ?thesis using sum_counts_update [OF j] by simp
qed

lemma countRows_counts:
  "countRows lo hi step bins rs = Inr bins' \<Longrightarrow>
     sum_list (map binCount bins') = sum_list (map binCount bins) + length rs"
proof (induction rs arbitrary: bins)
  case Nil
  then show ?case by simp
next
  case (Cons r rs)
  from Cons.prems obtain b1 where s: "countRow lo hi step bins r = Inr b1"
      and t: "countRows lo hi step b1 rs = Inr bins'"
    by (cases "countRow lo hi step bins r") simp_all
  from Cons.IH [OF t] countRow_counts [OF s] show ?case by simp
qed

lemma histogram_counts:
  assumes "useRatioHistogram rs step = Some (Inr bins)"
  shows "sum_list (map binCount bins) = length rs"
proof (cases "length rs = 0")
  case True
  with assms show ?thesis by (simp add: useRatioHistogram_def)
next
  case False
  with assms obtain lo hi bs where b: "binsFrom lo hi step = Some bs"
      and c: "countRows lo hi step bs rs = Inr bins"
    by (auto simp: useRatioHistogram_def Let_def)
  from countRows_counts [OF c] sum_list_zero_counts [OF binsFrom_counts [OF b]] show ?thesis by simp
qed

lemma seed_holds:
  "map (\<lambda>b. length (filter (\<lambda>r. binHolds b (ratio r)) seed))
       [\<lparr> binCount = 1, binFrom = Fin (1351079888211149 / 9007199254740992), binTo = Fin (3602879701896397 / 18014398509481984) \<rparr>,
        \<lparr> binCount = 2, binFrom = Fin (3602879701896397 / 18014398509481984), binTo = Fin (1 / 4) \<rparr>,
        \<lparr> binCount = 2, binFrom = Fin (1 / 4), binTo = Fin (5404319552844595 / 18014398509481984) \<rparr>,
        \<lparr> binCount = 0, binFrom = Fin (5404319552844595 / 18014398509481984), binTo = Fin (3152519739159347 / 9007199254740992) \<rparr>,
        \<lparr> binCount = 0, binFrom = Fin (3152519739159347 / 9007199254740992), binTo = Fin (3602879701896397 / 9007199254740992) \<rparr>]
     = [0, 2, 2, 1, 0]"
proof -
  obtain r0 r1 r2 r3 r4 where rows: "seed = [r0, r1, r2, r3, r4]"
    by (simp add: seed_def)
  have r: "ratio r0 = 1 / 4" "ratio r1 = 4203359652212463 / 18014398509481984"
      "ratio r2 = 5404319552844595 / 18014398509481984" "ratio r3 = 2322909281485835 / 9007199254740992"
      "ratio r4 = 3602879701896397 / 18014398509481984"
    using seed_ratios unfolding rows by simp_all
  show ?thesis
    unfolding rows by (simp add: binHolds_def r)
qed

text \<open>
  C5 fails on the code, which computes with doubles.  What holds: the histogram of no rows
  is the empty list, and whenever \<open>useRatioHistogram\<close> returns its bins, their counts add
  up to the number of rows.  But it does not always return them: for one row of the ratio
  \<open>1e20\<close> and the step 0.05 both \<open>lo\<close> and \<open>hi\<close> are \<open>1e20\<close>, no bin is made, and
  \<open>bins[idx].count++\<close> throws a \<open>TypeError\<close>.  And the bin that counts a row need not be
  the bin whose bounds hold its ratio: for the seed rows and the step 0.05, \<open>lo\<close> is
  \<open>0.15000000000000002\<close>, the five bins count 1, 2, 2, 0 and 0 rows, while their bounds
  \<open>_a \<le> ratio < _b\<close> hold 0, 2, 2, 1 and 0 of them (the ratio 0.2 is counted in the bin
  from 0.15 to 0.2, the ratio 0.3 in the bin from 0.25 to 0.3).
\<close>

theorem histogram_failing_inputs:
  "useRatioHistogram [] step = Some (Inr [])
   \<and> (useRatioHistogram rs step = Some (Inr bins) \<longrightarrow> sum_list (map binCount bins) = length rs)
   \<and> useRatioHistogram [hd seed\<lparr> ratio := 10 ^ 20 \<rparr>] defaultStep = Some (Inl TypeError)
   \<and> (\<exists>bins. useRatioHistogram seed defaultStep = Some (Inr bins)
         \<and> map binCount bins = [1, 2, 2, 0, 0]
         \<and> map (\<lambda>b. length (filter (\<lambda>r. binHolds b (ratio r)) seed)) bins = [0, 2, 2, 1, 0])"
proof (intro conjI impI)
  show "useRatioHistogram [] step = Some (Inr [])" by (rule histogram_empty)
  show "useRatioHistogram [hd seed\<lparr> ratio := 10 ^ 20 \<rparr>] defaultStep = Some (Inl TypeError)"
    by (rule histogram_huge)
  show "sum_list (map binCount bins) = length rs"
    if "useRatioHistogram rs step = Some (Inr bins)"
    using that by (rule histogram_counts)
  show "\<exists>bins. useRatioHistogram seed defaultStep = Some (Inr bins)
         \<and> map binCount bins = [1, 2, 2, 0, 0]
         \<and> map (\<lambda>b. length (filter (\<lambda>r. binHolds b (ratio r)) seed)) bins = [0, 2, 2, 1, 0]"
    unfolding histogram_seed using seed_holds by simp
qed

theorem histogram_failing_inputs_witness:
  "useRatioHistogram seed defaultStep \<noteq> None
   \<and> sum_list (map binCount (projr (the (useRatioHistogram seed defaultStep)))) = 5"
proof -
  obtain bins where b: "useRatioHistogram seed defaultStep = Some (Inr bins)"
    by (simp add: histogram_seed)
  have l: "length seed = 5" by (simp add: seed_def)
  from histogram_failing_inputs [of defaultStep seed bins] b l
  have "sum_list (map binCount bins) = 5" by simp
  then show ?thesis by (simp add: b)
qed

section \<open>Properties of field coercion\<close>















subsection \<open>The ingestion coercion\<close>

lemma stringToNumber_Nil: "stringToNumber [] = Fin 0"
  by (simp add: stringToNumber_def trim_def)

lemma num_string:
  "num (Str v) = finiteOr0 (stringToNumber (filter (\<lambda>c. \<not> (c = 0x2C \<or> isWhiteSpace c \<or> c = 0x25)) v))"
  by (cases "v = []") (simp_all add: num_def stringToNumber_Nil finiteOr0_def)

lemma num_filter:
  "num (Str v) = num (Str (filter (\<lambda>c. \<not> (c = 0x2C \<or> isWhiteSpace c \<or> c = 0x25)) v))"
  by (simp add: num_string)














subsection \<open>The coercion of the sortable-value accessor\<close>



















lemma coerceNumber_percent_unparsable: "coerceNumber (Str (ascii ''abc%'')) = NaN"
  by (simp add: coerceNumber_def ascii_def endsWith_def trim_def isWhiteSpace_def parseFloat_def
        trimStart_def scanDecimal_def scanUnsigned_def isDigit_def)








end
